theory Spec2Isabelle
  imports Complex_Main "HOL-Library.AList" "HOL-Library.Multiset"
begin

section \<open>Data model\<close>

text \<open>
  The review component works on three kinds of data: the externally supplied groups
  (\<^verbatim>\<open>interface Group\<close>), the per-file status kept by the file status context
  (\<^verbatim>\<open>interface FileStatus\<close>) and the session document kept in local storage
  (\<^verbatim>\<open>interface SessionState\<close>).

  JavaScript numbers that carry similarity percentages are modelled as rationals, group
  indices and counts as naturals, file numbers and page targets as integers. A plain
  JavaScript object used as a dictionary with file names as keys is an association list
  in insertion order: \<^verbatim>\<open>k in o\<close> is \<open>map_of o k \<noteq> None\<close>, \<^verbatim>\<open>o[k] = v\<close> is
  \<open>AList.update k v o\<close> and \<^verbatim>\<open>Object.keys(o)\<close> is \<open>map fst o\<close>. File names are
  ordinary file names such as \<^verbatim>\<open>12.json\<close>; names that collide with members of
  \<^verbatim>\<open>Object.prototype\<close> are outside the model.
\<close>

type_synonym filename = string

datatype status = Saved | Removed | Unknown

record Similarity =
  file1 :: filename
  file2 :: filename
  score :: rat

record Group =
  files :: "filename list"
  max_similarity :: rat
  similarities :: "Similarity list"

record FileStatus =
  status :: status
  checked :: bool

record McqMeta =
  hasYear :: bool
  fileNum :: int

type_synonym selections = "(filename \<times> bool) list"

type_synonym metadata = "filename \<rightharpoonup> McqMeta"

text \<open>
  \<^verbatim>\<open>SessionState\<close> of \<^verbatim>\<open>storage.ts\<close>. Optional fields are options. The optional fields
  that none of the modelled operations reads or writes (\<^verbatim>\<open>similarityLevelIndex\<close>,
  \<^verbatim>\<open>maxGroupsPerPage\<close>, \<^verbatim>\<open>pageCompleted\<close>, \<^verbatim>\<open>pageHistory\<close>, \<^verbatim>\<open>fileStatuses\<close>,
  \<^verbatim>\<open>removalHistory\<close>) are carried along unchanged by the code and are left out.
\<close>

record SessionState =
  subject :: string
  currentGroupIndex :: nat
  completedGroups :: "nat list"
  checkedFiles :: selections
  similarityRangeStart :: "rat option"
  similarityRangeEnd :: "rat option"
  targetGroupsPerPage :: "int option"
  isManualRange :: "bool option"
  mcqMetadata :: "metadata option"
  lastUpdated :: nat

section \<open>JavaScript numbers\<close>

text \<open>
  A JavaScript number is a binary64 double. \<open>toDouble\<close> gives the double nearest to a
  rational, a tie going to the even mantissa, as the product of two numbers and the
  reading of a decimal are rounded. The value \<open>2 ^ 1024\<close> stands for \<^verbatim>\<open>Infinity\<close>.
\<close>

function bitLength :: "int \<Rightarrow> nat" where
  "bitLength n = (if n \<le> 0 then 0 else Suc (bitLength (n div 2)))"
  by pat_completeness auto
termination
  by (relation "measure nat") auto

declare bitLength.simps [simp del]

definition pow2 :: "int \<Rightarrow> rat" where
  "pow2 k = (if k \<ge> 0 then 2 ^ nat k else 1 / 2 ^ nat (- k))"

definition floorLog2 :: "rat \<Rightarrow> int" where
  "floorLog2 x =
     (let k = int (bitLength (fst (quotient_of x))) - int (bitLength (snd (quotient_of x)))
      in if pow2 k \<le> x then k else k - 1)"

definition roundHalfEven :: "rat \<Rightarrow> int" where
  "roundHalfEven m =
     (let q = \<lfloor>m\<rfloor>; r = m - of_int q
      in if r > 1 / 2 \<or> (r = 1 / 2 \<and> odd q) then q + 1 else q)"

definition toDoublePos :: "rat \<Rightarrow> rat" where
  "toDoublePos x =
     (let l = floorLog2 x;
          e = max (l - 52) (- 1074);
          q = roundHalfEven (x / pow2 e)
      in if l > 1023 \<or> (l = 1023 \<and> q \<ge> 9007199254740992) then pow2 1024
         else of_int q * pow2 e)"

definition toDouble :: "rat \<Rightarrow> rat" where
  "toDouble x = (if x = 0 then 0 else if x < 0 then - toDoublePos (- x) else toDoublePos x)"

section \<open>Session storage (\<^verbatim>\<open>storage.ts\<close>)\<close>

text \<open>
  All sessions are written under the one constant key \<^verbatim>\<open>STORAGE_KEY\<close>, so the part of
  local storage the module touches is a single slot that is empty or holds one session
  document. \<^verbatim>\<open>JSON.stringify\<close> followed by \<^verbatim>\<open>JSON.parse\<close> is the identity on such a
  document. The clock value \<^verbatim>\<open>Date.now()\<close> is a parameter. The \<^verbatim>\<open>catch\<close> branches
  answer exceptions of the browser's storage (quota, corrupt text); the model is of a
  storage that accepts every write, where \<^verbatim>\<open>saveSession\<close> returns \<^verbatim>\<open>true\<close>.
\<close>

type_synonym localStorage = "SessionState option"

definition saveSession :: "nat \<Rightarrow> SessionState \<Rightarrow> localStorage \<Rightarrow> localStorage" where
  "saveSession now state store = Some (state\<lparr>lastUpdated := now\<rparr>)"

definition loadSession :: "string \<Rightarrow> localStorage \<Rightarrow> SessionState option" where
  "loadSession subj store =
     (case store of
        None \<Rightarrow> None
      | Some session \<Rightarrow> if subject session = subj then Some session else None)"

definition clearSession :: "string option \<Rightarrow> localStorage \<Rightarrow> localStorage" where
  "clearSession subj store =
     (case subj of
        Some s \<Rightarrow>
          (case store of
             None \<Rightarrow> store
           | Some session \<Rightarrow> if subject session = s then None else store)
      | None \<Rightarrow> None)"

definition updateCheckedFiles :: "nat \<Rightarrow> string \<Rightarrow> filename \<Rightarrow> bool \<Rightarrow> localStorage \<Rightarrow> localStorage" where
  "updateCheckedFiles now subj filename chk store =
     (case loadSession subj store of
        Some session \<Rightarrow>
          saveSession now (session\<lparr>checkedFiles := AList.update filename chk (checkedFiles session)\<rparr>) store
      | None \<Rightarrow> store)"

text \<open>The session object the components create when none is stored.\<close>

definition freshSession :: "string \<Rightarrow> nat \<Rightarrow> SessionState" where
  "freshSession subj now =
     \<lparr>subject = subj, currentGroupIndex = 0, completedGroups = [], checkedFiles = [],
      similarityRangeStart = None, similarityRangeEnd = None, targetGroupsPerPage = None,
      isManualRange = None, mcqMetadata = None, lastUpdated = now\<rparr>"

section \<open>Pagination by similarity range (\<^verbatim>\<open>SimilarityGroupViewInner\<close>)\<close>

text \<open>
  A group's level is \<^verbatim>\<open>Math.round(group.max_similarity * 1000) / 10\<close>, a percentage with
  one decimal. The field \<open>max_similarity\<close> holds the number as the backend wrote it; the
  component sees the nearest double, multiplies it by 1000 in double arithmetic and rounds
  the product to the nearest integer, a tie upwards. A level is kept as the decimal
  \<open>n / 10\<close> it denotes, and so is a bound of a range; the doubles of two such decimals
  compare as the decimals do.
\<close>

definition roundedSimilarity :: "Group \<Rightarrow> rat" where
  "roundedSimilarity grp =
     of_int \<lfloor>toDouble (toDouble (max_similarity grp) * 1000) + 1 / 2\<rfloor> / 10"

text \<open>
  \<^verbatim>\<open>initializeGroups\<close> buckets the group indices by level (\<^verbatim>\<open>grouped\<close>, state
  \<^verbatim>\<open>groupsBySimilarity\<close>) and keeps the levels sorted, highest first (state
  \<^verbatim>\<open>similarityLevels\<close>). \<^verbatim>\<open>groups.forEach((group, index) => ...)\<close> runs over the groups
  paired with their indices.
\<close>

definition pushGrouped :: "nat \<times> Group \<Rightarrow> (rat \<times> nat list) list \<Rightarrow> (rat \<times> nat list) list" where
  "pushGrouped ig grouped =
     (let roundedSim = roundedSimilarity (snd ig) in
      AList.update roundedSim
        ((case map_of grouped roundedSim of None \<Rightarrow> [] | Some l \<Rightarrow> l) @ [fst ig]) grouped)"

definition groupsBySimilarity :: "Group list \<Rightarrow> (rat \<times> nat list) list" where
  "groupsBySimilarity groups = fold pushGrouped (enumerate 0 groups) []"

definition similarityLevels :: "Group list \<Rightarrow> rat list" where
  "similarityLevels groups = rev (sort (map fst (groupsBySimilarity groups)))"

text \<open>
  \<^verbatim>\<open>calculateGroupsInRange(start, end, limit?)\<close>: the indices of the groups whose level
  lies in the closed interval, in index order, cut off once \<^verbatim>\<open>limit\<close> indices have been
  collected (a missing or zero limit is no limit).
\<close>

fun rangeLoop :: "rat \<Rightarrow> rat \<Rightarrow> nat option \<Rightarrow> (nat \<times> Group) list \<Rightarrow> nat list \<Rightarrow> nat list" where
  "rangeLoop rangeStart rangeEnd limit [] groupIndices = groupIndices"
| "rangeLoop rangeStart rangeEnd limit ((index, grp) # rest) groupIndices =
     (if roundedSimilarity grp \<le> rangeStart \<and> roundedSimilarity grp \<ge> rangeEnd then
        (let pushed = groupIndices @ [index] in
         if (case limit of None \<Rightarrow> False | Some l \<Rightarrow> l \<noteq> 0 \<and> length pushed \<ge> l) then pushed
         else rangeLoop rangeStart rangeEnd limit rest pushed)
      else rangeLoop rangeStart rangeEnd limit rest groupIndices)"

definition calculateGroupsInRange :: "Group list \<Rightarrow> rat \<Rightarrow> rat \<Rightarrow> nat option \<Rightarrow> nat list" where
  "calculateGroupsInRange groups rangeStart rangeEnd limit =
     rangeLoop rangeStart rangeEnd limit (enumerate 0 groups) []"

text \<open>
  \<^verbatim>\<open>getGroupsForCurrentPage\<close> passes no limit: the page is every group of the range.
\<close>

definition getGroupsForCurrentPage :: "Group list \<Rightarrow> rat \<Rightarrow> rat \<Rightarrow> nat list" where
  "getGroupsForCurrentPage groups rangeStart rangeEnd =
     calculateGroupsInRange groups rangeStart rangeEnd None"

record ReviewRange =
  range_start :: rat
  range_end :: rat

text \<open>
  \<^verbatim>\<open>calculateRangeFromTargetGroups(startPoint, targetGroups)\<close>. The first loop looks for
  the first level not above the start point; the second adds whole levels until one of the
  two \<^verbatim>\<open>break\<close> conditions holds or the levels run out. The factors \<^verbatim>\<open>0.8\<close>, \<^verbatim>\<open>1.5\<close> and
  \<^verbatim>\<open>0.5\<close> are the rationals 4/5, 3/2 and 1/2.
\<close>

fun findStartIndex :: "rat list \<Rightarrow> rat \<Rightarrow> nat \<Rightarrow> nat option" where
  "findStartIndex [] startPoint i = None"
| "findStartIndex (level # rest) startPoint i =
     (if level \<le> startPoint then Some i else findStartIndex rest startPoint (Suc i))"

definition groupsInLevel :: "(rat \<times> nat list) list \<Rightarrow> rat \<Rightarrow> nat list" where
  "groupsInLevel grouped level = (case map_of grouped level of None \<Rightarrow> [] | Some l \<Rightarrow> l)"

fun expandRange :: "(rat \<times> nat list) list \<Rightarrow> int \<Rightarrow> rat list \<Rightarrow> rat \<times> nat \<Rightarrow> rat \<times> nat" where
  "expandRange grouped targetGroups [] (rangeEnd, totalGroups) = (rangeEnd, totalGroups)"
| "expandRange grouped targetGroups (level # rest) (rangeEnd, totalGroups) =
     (let total = totalGroups + length (groupsInLevel grouped level) in
      if (of_nat total :: rat) \<ge> of_int targetGroups * (4 / 5) \<and> (of_nat total :: rat) \<ge> of_int targetGroups
      then (level, total)
      else if (of_nat total :: rat) > of_int targetGroups * (3 / 2) then (level, total)
      else expandRange grouped targetGroups rest (level, total))"

definition calculateRangeFromTargetGroups ::
  "rat list \<Rightarrow> (rat \<times> nat list) list \<Rightarrow> Group list \<Rightarrow> rat \<Rightarrow> int \<Rightarrow> ReviewRange" where
  "calculateRangeFromTargetGroups levels grouped groups startPoint targetGroups =
     (if levels = [] then \<lparr>range_start = 100, range_end = 999 / 10\<rparr>
      else
        (case findStartIndex levels startPoint 0 of
           None \<Rightarrow> \<lparr>range_start = last levels, range_end = last levels\<rparr>
         | Some startIndex \<Rightarrow>
             (let rangeStart = levels ! startIndex;
                  expanded = expandRange grouped targetGroups (drop startIndex levels) (rangeStart, 0);
                  rangeEnd = fst expanded;
                  totalGroups = snd expanded
              in
                if (of_nat totalGroups :: rat) < of_int targetGroups * (1 / 2) then
                  (let minLevel = last levels;
                       allRemainingGroups = length (calculateGroupsInRange groups rangeStart minLevel None)
                   in
                     if allRemainingGroups > 0 then \<lparr>range_start = rangeStart, range_end = minLevel\<rparr>
                     else \<lparr>range_start = rangeStart, range_end = rangeEnd\<rparr>)
                else \<lparr>range_start = rangeStart, range_end = rangeEnd\<rparr>)))"


text \<open>
  The selection state \<^verbatim>\<open>autoSelections\<close> maps a group index to the selections of that
  group. \<^verbatim>\<open>groups[groupIndex]\<close> is \<^verbatim>\<open>undefined\<close> outside the array.
\<close>

type_synonym autoSelections = "nat \<rightharpoonup> selections"

definition groupAt :: "Group list \<Rightarrow> nat \<Rightarrow> Group option" where
  "groupAt groups groupIndex = (if groupIndex < length groups then Some (groups ! groupIndex) else None)"

text \<open>
  \<^verbatim>\<open>allGroupsHaveAutoSelections()\<close>, whose value the component names
  \<^verbatim>\<open>groupsReadyForSubmit\<close>.
\<close>

definition groupHasSelections :: "Group list \<Rightarrow> autoSelections \<Rightarrow> nat \<Rightarrow> bool" where
  "groupHasSelections groups autoSel groupIndex =
     (case autoSel groupIndex of
        None \<Rightarrow> False
      | Some sel \<Rightarrow>
          if length (map fst sel) = 0 then False
          else
            (case groupAt groups groupIndex of
               None \<Rightarrow> True
             | Some grp \<Rightarrow> list_all (\<lambda>filename. map_of sel filename \<noteq> None) (files grp)))"

definition allGroupsHaveAutoSelections :: "Group list \<Rightarrow> autoSelections \<Rightarrow> rat \<Rightarrow> rat \<Rightarrow> bool" where
  "allGroupsHaveAutoSelections groups autoSel rangeStart rangeEnd =
     (let groupsInPage = getGroupsForCurrentPage groups rangeStart rangeEnd in
      if length groupsInPage = 0 then False
      else list_all (groupHasSelections groups autoSel) groupsInPage)"

text \<open>
  The readiness condition in the words of the specification, for comparison with
  \<open>allGroupsHaveAutoSelections\<close>: every record in every group on the page has an explicit
  selection entry.
\<close>

definition spec_isPageReadyForSubmit :: "Group list \<Rightarrow> autoSelections \<Rightarrow> nat list \<Rightarrow> bool" where
  "spec_isPageReadyForSubmit groups autoSel pageGroups =
     list_all (\<lambda>groupIndex.
        case groupAt groups groupIndex of
          None \<Rightarrow> True
        | Some grp \<Rightarrow>
            list_all (\<lambda>filename.
               case autoSel groupIndex of None \<Rightarrow> False | Some sel \<Rightarrow> map_of sel filename \<noteq> None)
              (files grp))
       pageGroups"

text \<open>
  Two scenarios of the specification, used to run the definitions: two overlapping groups
  over the records A, B and C, and a group list with 50 groups at level 100.0 and 80
  groups at level 99.9.
\<close>

definition scenarioGroups :: "Group list" where
  "scenarioGroups =
     [\<lparr>files = [''A'', ''B''], max_similarity = 999 / 1000, similarities = []\<rparr>,
      \<lparr>files = [''B'', ''C''], max_similarity = 998 / 1000, similarities = []\<rparr>]"

definition scenarioLevels :: "Group list" where
  "scenarioLevels =
     replicate 50 \<lparr>files = [''1.json'', ''2.json''], max_similarity = 1, similarities = []\<rparr> @
     replicate 80 \<lparr>files = [''3.json'', ''4.json''], max_similarity = 999 / 1000, similarities = []\<rparr>"

text \<open>
  The running total as the loop of the range calculation keeps it, from the buckets of
  \<^verbatim>\<open>groupsBySimilarity\<close>: the sum of the bucket sizes of the levels up to position \<open>k\<close>.
\<close>

definition levelTotal :: "(rat \<times> nat list) list \<Rightarrow> rat list \<Rightarrow> nat \<Rightarrow> nat" where
  "levelTotal grouped ls k =
     sum_list (map (\<lambda>level. length (groupsInLevel grouped level)) (take (Suc k) ls))"

text \<open>
  The stop rule in the words of the specification: the number of groups at a level, the
  running total of the groups at the levels up to position \<open>k\<close>, and the test that a total
  has reached the target (at least 0.8 times the target and at least the target).
\<close>

definition spec_groupsAtLevel :: "Group list \<Rightarrow> rat \<Rightarrow> nat" where
  "spec_groupsAtLevel groups level = length (filter (\<lambda>grp. roundedSimilarity grp = level) groups)"

definition spec_runningTotal :: "Group list \<Rightarrow> rat list \<Rightarrow> nat \<Rightarrow> nat" where
  "spec_runningTotal groups ls k = sum_list (map (spec_groupsAtLevel groups) (take (Suc k) ls))"

definition spec_reachesTarget :: "int \<Rightarrow> nat \<Rightarrow> bool" where
  "spec_reachesTarget targetGroups totalGroups \<longleftrightarrow>
     (of_nat totalGroups :: rat) \<ge> of_int targetGroups * (4 / 5) \<and>
     (of_nat totalGroups :: rat) \<ge> of_int targetGroups"

section \<open>Automatic selection (\<^verbatim>\<open>autoSelectBestMCQ\<close>)\<close>

text \<open>
  The file status context is a dictionary from file names to \<^verbatim>\<open>FileStatus\<close>;
  \<^verbatim>\<open>getFileStatus(f)?.status || 'unknown'\<close> and \<^verbatim>\<open>getFileChecked(f)\<close> read it with
  their defaults.
\<close>

type_synonym fileStatuses = "filename \<rightharpoonup> FileStatus"

definition statusOf :: "fileStatuses \<Rightarrow> filename \<Rightarrow> status" where
  "statusOf ctx filename = (case ctx filename of None \<Rightarrow> Unknown | Some fs \<Rightarrow> status fs)"

definition getFileChecked :: "fileStatuses \<Rightarrow> filename \<Rightarrow> bool" where
  "getFileChecked ctx filename = (case ctx filename of None \<Rightarrow> False | Some fs \<Rightarrow> checked fs)"

text \<open>
  \<^verbatim>\<open>parseInt(filename.replace(/\D/g, '')) || 999999\<close>: the digits of the name read as a
  decimal number, which is the double nearest to their value, and 999999 when there is no
  digit or the number is zero. File numbers are integers, and \<open>2 ^ 1024\<close> stands for
  \<^verbatim>\<open>Infinity\<close>, which a name of more than 308 digits gives; the difference of two such
  numbers that the comparator returns has the sign of the difference of the integers, and
  \<^verbatim>\<open>Infinity - Infinity\<close> counts as zero in the sort.
\<close>

definition isDigit :: "char \<Rightarrow> bool" where
  "isDigit c \<longleftrightarrow> c \<in> set ''0123456789''"

definition parseDigits :: "string \<Rightarrow> int" where
  "parseDigits ds = fold (\<lambda>c n. 10 * n + (of_char c - 48)) ds 0"

definition parseInt :: "string \<Rightarrow> int" where
  "parseInt ds = \<lfloor>toDouble (of_int (parseDigits ds))\<rfloor>"

definition fileNumOf :: "filename \<Rightarrow> int" where
  "fileNumOf filename =
     (let ds = filter isDigit filename in
      if ds = [] \<or> parseInt ds = 0 then 999999 else parseInt ds)"

record UnknownFile =
  uFilename :: filename
  uHasYear :: bool
  uFileNum :: int

text \<open>
  The comparator passed to \<^verbatim>\<open>unknownFiles.sort\<close>, and \<^verbatim>\<open>Array.prototype.sort\<close> itself:
  a stable sort, here by insertion.
\<close>

definition compareUnknown :: "UnknownFile \<Rightarrow> UnknownFile \<Rightarrow> int" where
  "compareUnknown a b =
     (if uHasYear a \<noteq> uHasYear b then (if uHasYear a then - 1 else 1)
      else uFileNum a - uFileNum b)"

fun insertBy :: "('a \<Rightarrow> 'a \<Rightarrow> int) \<Rightarrow> 'a \<Rightarrow> 'a list \<Rightarrow> 'a list" where
  "insertBy cmp x [] = [x]"
| "insertBy cmp x (y # ys) = (if cmp x y \<le> 0 then x # y # ys else y # insertBy cmp x ys)"

definition sortBy :: "('a \<Rightarrow> 'a \<Rightarrow> int) \<Rightarrow> 'a list \<Rightarrow> 'a list" where
  "sortBy cmp xs = foldr (insertBy cmp) xs []"

text \<open>
  The entry pushed on \<^verbatim>\<open>unknownFiles\<close> for a file of unknown status: year flag and file
  number from the cached metadata, or no year and the number parsed from the name.
\<close>

definition unknownEntry :: "metadata \<Rightarrow> filename \<Rightarrow> UnknownFile" where
  "unknownEntry meta filename =
     (case meta filename of
        Some cached \<Rightarrow> \<lparr>uFilename = filename, uHasYear = hasYear cached, uFileNum = fileNum cached\<rparr>
      | None \<Rightarrow> \<lparr>uFilename = filename, uHasYear = False, uFileNum = fileNumOf filename\<rparr>)"

definition classifyFile ::
  "fileStatuses \<Rightarrow> metadata \<Rightarrow> filename \<Rightarrow> selections \<times> UnknownFile list \<Rightarrow> selections \<times> UnknownFile list" where
  "classifyFile ctx meta filename acc =
     (case statusOf ctx filename of
        Saved \<Rightarrow> (AList.update filename True (fst acc), snd acc)
      | Removed \<Rightarrow> (AList.update filename False (fst acc), snd acc)
      | Unknown \<Rightarrow> (AList.update filename False (fst acc), snd acc @ [unknownEntry meta filename]))"

definition autoSelectBestMCQ :: "fileStatuses \<Rightarrow> filename list \<Rightarrow> metadata \<Rightarrow> bool \<Rightarrow> selections" where
  "autoSelectBestMCQ ctx fileList meta useCheckAllMode =
     (if length fileList = 0 then []
      else if useCheckAllMode then
        fold (\<lambda>filename sel. AList.update filename (statusOf ctx filename \<noteq> Removed) sel) fileList []
      else
        (let acc = fold (classifyFile ctx meta) fileList ([], []);
             sel = fst acc;
             unknownFiles = snd acc
         in
           if length unknownFiles > 0 then
             AList.update (uFilename (hd (sortBy compareUnknown unknownFiles))) True sel
           else sel))"

text \<open>
  The order the comparator induces on the entries, year flag first and file number
  second: \<open>a\<close> ranks at least as high as \<open>b\<close>.
\<close>

definition spec_ranksAtLeast :: "UnknownFile \<Rightarrow> UnknownFile \<Rightarrow> bool" where
  "spec_ranksAtLeast a b \<longleftrightarrow>
     (uHasYear a \<and> \<not> uHasYear b) \<or> (uHasYear a = uHasYear b \<and> uFileNum a \<le> uFileNum b)"

text \<open>
  The rank key of the specification, read off the metadata and not off the entries the
  code builds: the year flag and the file number of the record's metadata, and for a
  record without metadata no year and the number read from its name. A key outranks
  another when it has the year flag and the other has not, or when they agree on the flag
  and its number is the smaller.
\<close>

definition spec_rankKey :: "metadata \<Rightarrow> filename \<Rightarrow> bool \<times> int" where
  "spec_rankKey meta filename =
     (case meta filename of
        Some m \<Rightarrow> (hasYear m, fileNum m)
      | None \<Rightarrow> (False, fileNumOf filename))"

definition spec_outranks :: "bool \<times> int \<Rightarrow> bool \<times> int \<Rightarrow> bool" where
  "spec_outranks a b \<longleftrightarrow> (fst a \<and> \<not> fst b) \<or> (fst a = fst b \<and> snd a < snd b)"

section \<open>Recomputing the selections (the \<^verbatim>\<open>checkAllMode\<close> effect)\<close>

text \<open>
  The effect that runs when \<^verbatim>\<open>checkAllMode\<close>, the groups or the file status context
  change, and the same update at the end of \<^verbatim>\<open>initializeGroups\<close>. For every group it runs
  the automatic selection on the files the user has not modified and merges the result into
  the existing selections: always for saved and removed files, only into missing entries for
  the others.
\<close>

definition mergeSelection :: "fileStatuses \<Rightarrow> selections \<Rightarrow> filename \<Rightarrow> selections \<Rightarrow> selections" where
  "mergeSelection ctx groupSelections filename merged =
     (let st = statusOf ctx filename;
          newSelection = (case map_of groupSelections filename of None \<Rightarrow> False | Some b \<Rightarrow> b)
      in
        if st = Saved \<or> st = Removed then AList.update filename newSelection merged
        else if map_of merged filename = None then AList.update filename newSelection merged
        else merged)"

definition recomputeGroup ::
  "fileStatuses \<Rightarrow> metadata \<Rightarrow> bool \<Rightarrow> filename set \<Rightarrow> Group list \<Rightarrow> nat \<Rightarrow> autoSelections \<Rightarrow> autoSelections" where
  "recomputeGroup ctx meta checkAllMode userModified groups groupIndex updated =
     (let groupFiles = files (groups ! groupIndex);
          existingSelections = (case updated groupIndex of None \<Rightarrow> [] | Some sel \<Rightarrow> sel);
          filesForAutoSelect = filter (\<lambda>f. f \<notin> userModified) groupFiles;
          merged =
            (if length filesForAutoSelect > 0 then
               (let groupSelections = autoSelectBestMCQ ctx filesForAutoSelect meta checkAllMode in
                fold (mergeSelection ctx groupSelections) filesForAutoSelect existingSelections)
             else existingSelections)
      in updated(groupIndex \<mapsto> merged))"

definition recomputeSelections ::
  "fileStatuses \<Rightarrow> metadata \<Rightarrow> bool \<Rightarrow> filename set \<Rightarrow> Group list \<Rightarrow> autoSelections \<Rightarrow> autoSelections" where
  "recomputeSelections ctx meta checkAllMode userModified groups prev =
     fold (recomputeGroup ctx meta checkAllMode userModified groups) [0..<length groups] prev"

definition recomputeEffect ::
  "bool \<Rightarrow> fileStatuses \<Rightarrow> metadata \<Rightarrow> bool \<Rightarrow> filename set \<Rightarrow> Group list \<Rightarrow> autoSelections \<Rightarrow> autoSelections" where
  "recomputeEffect initializing ctx meta checkAllMode userModified groups prev =
     (if \<not> initializing \<and> length groups > 0
      then recomputeSelections ctx meta checkAllMode userModified groups prev
      else prev)"

text \<open>The selection a record holds in a group: \<^verbatim>\<open>autoSelections[groupIndex]?.[filename]\<close>.\<close>

definition selectionOf :: "autoSelections \<Rightarrow> nat \<Rightarrow> filename \<Rightarrow> bool option" where
  "selectionOf autoSel groupIndex filename =
     (case autoSel groupIndex of None \<Rightarrow> None | Some sel \<Rightarrow> map_of sel filename)"

section \<open>Toggling a record (\<^verbatim>\<open>handleFileToggleAll\<close>)\<close>

text \<open>
  The part of the component's state the handler touches: the selections, the set of
  user-modified file names (\<^verbatim>\<open>userModifiedFilesRef\<close>) and local storage.
\<close>

record ViewState =
  autoSelections :: autoSelections
  userModifiedFiles :: "filename set"
  localStore :: localStorage

definition toggleGroup ::
  "Group list \<Rightarrow> filename \<Rightarrow> bool \<Rightarrow> autoSelections \<Rightarrow> nat \<Rightarrow> autoSelections \<Rightarrow> autoSelections" where
  "toggleGroup groups filename chk prev groupIndex updated =
     (case groupAt groups groupIndex of
        None \<Rightarrow> updated
      | Some grp \<Rightarrow>
          if filename \<notin> set (files grp) then updated
          else
            (let prevGroupSelections =
                   (case updated groupIndex of
                      Some sel \<Rightarrow> sel
                    | None \<Rightarrow> (case prev groupIndex of Some sel \<Rightarrow> sel | None \<Rightarrow> []))
             in updated(groupIndex \<mapsto> AList.update filename chk prevGroupSelections)))"

definition handleFileToggleAll ::
  "nat \<Rightarrow> string \<Rightarrow> Group list \<Rightarrow> rat \<Rightarrow> rat \<Rightarrow> filename \<Rightarrow> bool \<Rightarrow> ViewState \<Rightarrow> ViewState" where
  "handleFileToggleAll now subj groups rangeStart rangeEnd filename chk st =
     \<lparr>autoSelections = fold (toggleGroup groups filename chk (autoSelections st))
                          (getGroupsForCurrentPage groups rangeStart rangeEnd) (autoSelections st),
      userModifiedFiles = insert filename (userModifiedFiles st),
      localStore = updateCheckedFiles now subj filename chk (localStore st)\<rparr>"

text \<open>
  The metadata of the specification's scenario: A has a year and number 5, B and C have no
  year and the numbers 1 and 2.
\<close>

definition scenarioMeta :: metadata where
  "scenarioMeta =
     [''A'' \<mapsto> \<lparr>hasYear = True, fileNum = 5\<rparr>,
      ''B'' \<mapsto> \<lparr>hasYear = False, fileNum = 1\<rparr>,
      ''C'' \<mapsto> \<lparr>hasYear = False, fileNum = 2\<rparr>]"

text \<open>
  A status context for the scenario in which A is already saved and B already removed.
\<close>

definition scenarioStatuses :: fileStatuses where
  "scenarioStatuses =
     [''A'' \<mapsto> \<lparr>status = Saved, checked = True\<rparr>,
      ''B'' \<mapsto> \<lparr>status = Removed, checked = False\<rparr>]"

text \<open>
  The effect that saves the range: it runs when the component mounts and whenever the
  range, the target or the manual flag change, and creates the session of the subject
  when none is stored.
\<close>

definition saveRangeEffect ::
  "nat \<Rightarrow> string \<Rightarrow> rat \<Rightarrow> rat \<Rightarrow> int \<Rightarrow> bool \<Rightarrow> localStorage \<Rightarrow> localStorage" where
  "saveRangeEffect now subj rangeStart rangeEnd target manual store =
     (let session = (case loadSession subj store of Some s \<Rightarrow> s | None \<Rightarrow> freshSession subj now)
      in saveSession now
           (session\<lparr>similarityRangeStart := Some rangeStart, similarityRangeEnd := Some rangeEnd,
                    targetGroupsPerPage := Some target, isManualRange := Some manual\<rparr>)
           store)"

section \<open>Display order (\<^verbatim>\<open>reorderGroupsByFileAppearances\<close>)\<close>

text \<open>
  \<^verbatim>\<open>fileToGroups\<close> maps a file name to the indices of the listed groups that contain it,
  each index once, in list order. Indices outside the groups array are skipped.
\<close>

definition addFileGroup :: "nat \<Rightarrow> filename \<Rightarrow> (filename \<times> nat list) list \<Rightarrow> (filename \<times> nat list) list" where
  "addFileGroup groupIndex filename fileToGroups =
     (let ensured = (if map_of fileToGroups filename = None
                     then AList.update filename [] fileToGroups else fileToGroups);
          current = (case map_of ensured filename of None \<Rightarrow> [] | Some l \<Rightarrow> l)
      in
        if groupIndex \<notin> set current then AList.update filename (current @ [groupIndex]) ensured
        else ensured)"

definition buildFileToGroups :: "Group list \<Rightarrow> nat list \<Rightarrow> (filename \<times> nat list) list" where
  "buildFileToGroups groups groupIndices =
     fold (\<lambda>groupIndex fileToGroups.
             case groupAt groups groupIndex of
               None \<Rightarrow> fileToGroups
             | Some grp \<Rightarrow> fold (addFileGroup groupIndex) (files grp) fileToGroups)
          groupIndices []"

definition isMultiAppearance :: "(filename \<times> nat list) list \<Rightarrow> filename \<Rightarrow> bool" where
  "isMultiAppearance fileToGroups filename =
     (case map_of fileToGroups filename of None \<Rightarrow> False | Some l \<Rightarrow> length l > 1)"

text \<open>
  The loop state is the list \<^verbatim>\<open>reordered\<close> and the set \<^verbatim>\<open>placedGroups\<close>.
  \<^verbatim>\<open>addGroup\<close> appends an index that is not yet placed.
\<close>

definition addGroup :: "nat \<Rightarrow> nat list \<times> nat set \<Rightarrow> nat list \<times> nat set" where
  "addGroup groupIndex st =
     (if groupIndex \<notin> snd st then (fst st @ [groupIndex], insert groupIndex (snd st)) else st)"

text \<open>
  \<^verbatim>\<open>relatedGroupsSet\<close> is a JavaScript set, which keeps insertion order: a list without
  repetition.
\<close>

definition addRelated :: "nat \<Rightarrow> nat set \<Rightarrow> nat \<Rightarrow> nat list \<Rightarrow> nat list" where
  "addRelated groupIndex placedGroups relatedGroupIndex related =
     (if relatedGroupIndex \<noteq> groupIndex \<and> relatedGroupIndex \<notin> placedGroups
      then (if relatedGroupIndex \<in> set related then related else related @ [relatedGroupIndex])
      else related)"

definition collectRelated ::
  "(filename \<times> nat list) list \<Rightarrow> nat \<Rightarrow> nat set \<Rightarrow> filename list \<Rightarrow> nat list" where
  "collectRelated fileToGroups groupIndex placedGroups multiFiles =
     fold (\<lambda>filename related.
             fold (addRelated groupIndex placedGroups)
                  (case map_of fileToGroups filename of None \<Rightarrow> [] | Some l \<Rightarrow> l) related)
          multiFiles []"

text \<open>\<^verbatim>\<open>groupIndices.indexOf(a)\<close>: the first position of \<open>a\<close>, or \<open>-1\<close>.\<close>

fun indexOf :: "nat list \<Rightarrow> nat \<Rightarrow> int" where
  "indexOf [] a = - 1"
| "indexOf (x # xs) a = (if x = a then 0 else (if indexOf xs a < 0 then - 1 else indexOf xs a + 1))"

definition placeGroup ::
  "Group list \<Rightarrow> nat list \<Rightarrow> (filename \<times> nat list) list \<Rightarrow> nat \<Rightarrow> nat list \<times> nat set \<Rightarrow> nat list \<times> nat set" where
  "placeGroup groups groupIndices fileToGroups groupIndex st =
     (if groupIndex \<in> snd st then st
      else
        (case groupAt groups groupIndex of
           None \<Rightarrow> addGroup groupIndex st
         | Some grp \<Rightarrow>
             (let multiAppearanceFilesInGroup = filter (isMultiAppearance fileToGroups) (files grp) in
              if length multiAppearanceFilesInGroup > 0 then
                (let st1 = addGroup groupIndex st;
                     related = collectRelated fileToGroups groupIndex (snd st1) multiAppearanceFilesInGroup;
                     relatedGroups =
                       sortBy (\<lambda>a b. indexOf groupIndices a - indexOf groupIndices b) related
                 in fold addGroup relatedGroups st1)
              else addGroup groupIndex st)))"

definition reorderGroupsByFileAppearances :: "Group list \<Rightarrow> nat list \<Rightarrow> nat list" where
  "reorderGroupsByFileAppearances groups groupIndices =
     (if length groupIndices = 0 then groupIndices
      else
        (let fileToGroups = buildFileToGroups groups groupIndices;
             multiAppearanceFiles = filter (isMultiAppearance fileToGroups) (map fst fileToGroups)
         in
           if length multiAppearanceFiles = 0 then groupIndices
           else
             (let st = fold (placeGroup groups groupIndices fileToGroups) groupIndices ([], {})
              in fold (\<lambda>groupIndex reordered.
                         if groupIndex \<notin> snd st then reordered @ [groupIndex] else reordered)
                      groupIndices (fst st))))"

definition getReorderedGroupsForPage :: "Group list \<Rightarrow> rat \<Rightarrow> rat \<Rightarrow> nat list" where
  "getReorderedGroupsForPage groups rangeStart rangeEnd =
     reorderGroupsByFileAppearances groups (getGroupsForCurrentPage groups rangeStart rangeEnd)"

section \<open>Conflict detection (the conflict effect)\<close>

text \<open>
  The state a record holds in a group of the page: its entry in the group's selections,
  or the checked flag of the status context when the group has no entry for it.
\<close>

definition isCheckedIn :: "fileStatuses \<Rightarrow> autoSelections \<Rightarrow> nat \<Rightarrow> filename \<Rightarrow> bool" where
  "isCheckedIn ctx autoSel groupIndex filename =
     (let sel = (case autoSel groupIndex of None \<Rightarrow> [] | Some s \<Rightarrow> s) in
      case map_of sel filename of Some b \<Rightarrow> b | None \<Rightarrow> getFileChecked ctx filename)"

definition addFileState ::
  "fileStatuses \<Rightarrow> autoSelections \<Rightarrow> nat \<Rightarrow> filename \<Rightarrow> (filename \<times> bool set) list \<Rightarrow> (filename \<times> bool set) list" where
  "addFileState ctx autoSel groupIndex filename fileStates =
     AList.update filename
       (insert (isCheckedIn ctx autoSel groupIndex filename)
          (case map_of fileStates filename of None \<Rightarrow> {} | Some s \<Rightarrow> s))
       fileStates"

definition collectFileStates ::
  "Group list \<Rightarrow> fileStatuses \<Rightarrow> autoSelections \<Rightarrow> nat list \<Rightarrow> (filename \<times> bool set) list" where
  "collectFileStates groups ctx autoSel groupsInPage =
     fold (\<lambda>groupIndex fileStates.
             case groupAt groups groupIndex of
               None \<Rightarrow> fileStates
             | Some grp \<Rightarrow> fold (addFileState ctx autoSel groupIndex) (files grp) fileStates)
          groupsInPage []"

text \<open>
  The effect returns at once on a page without groups and then leaves the state
  \<^verbatim>\<open>conflictingFiles\<close> as it is (the result \<open>None\<close>); otherwise it sets the state to the
  files whose collected states contain both values. The counters the same loop keeps for
  the display (appearance counts and order) do not enter the conflict set and are left
  out.
\<close>

definition detectConflicts ::
  "Group list \<Rightarrow> fileStatuses \<Rightarrow> autoSelections \<Rightarrow> nat list \<Rightarrow> filename set option" where
  "detectConflicts groups ctx autoSel groupsInPage =
     (if length groupsInPage = 0 then None
      else
        Some (set (map fst (filter (\<lambda>entry. True \<in> snd entry \<and> False \<in> snd entry)
                                   (collectFileStates groups ctx autoSel groupsInPage)))))"

definition conflictEffect ::
  "Group list \<Rightarrow> fileStatuses \<Rightarrow> autoSelections \<Rightarrow> rat \<Rightarrow> rat \<Rightarrow> filename set \<Rightarrow> filename set" where
  "conflictEffect groups ctx autoSel rangeStart rangeEnd conflictingFiles =
     (case detectConflicts groups ctx autoSel (getReorderedGroupsForPage groups rangeStart rangeEnd) of
        None \<Rightarrow> conflictingFiles
      | Some conflicts \<Rightarrow> conflicts)"

section \<open>Submitting a page (\<^verbatim>\<open>handleConfirmSubmitAll\<close>)\<close>

text \<open>
  The final state of every file of the page: a first pass sets each file to false, a
  second pass sets a file to true when some group of the page has it checked. Reading
  \<^verbatim>\<open>group.files\<close> of an index outside the groups array throws; the result is then
  \<open>None\<close>.
\<close>

definition initFinalState :: "filename \<Rightarrow> selections \<Rightarrow> selections" where
  "initFinalState filename fileFinalStates =
     (if map_of fileFinalStates filename = None then AList.update filename False fileFinalStates
      else fileFinalStates)"

definition markFinalState :: "selections \<Rightarrow> filename \<Rightarrow> selections \<Rightarrow> selections" where
  "markFinalState sel filename fileFinalStates =
     (let isChecked = (case map_of sel filename of None \<Rightarrow> False | Some b \<Rightarrow> b) in
      if isChecked then AList.update filename True fileFinalStates else fileFinalStates)"

definition fileFinalStates :: "Group list \<Rightarrow> autoSelections \<Rightarrow> nat list \<Rightarrow> selections option" where
  "fileFinalStates groups autoSel groupsInPage =
     (if \<not> list_all (\<lambda>groupIndex. groupIndex < length groups) groupsInPage then None
      else
        (let firstPass =
               fold (\<lambda>groupIndex. fold initFinalState (files (groups ! groupIndex))) groupsInPage [];
             secondPass =
               fold (\<lambda>groupIndex.
                       fold (markFinalState (case autoSel groupIndex of None \<Rightarrow> [] | Some sel \<Rightarrow> sel))
                            (files (groups ! groupIndex)))
                    groupsInPage firstPass
         in Some secondPass))"

text \<open>
  \<^verbatim>\<open>processGroup\<close>: the files sent to \<^verbatim>\<open>api.submitGroup\<close> as kept, and the status
  written to the status context for each file of the group afterwards.
\<close>

definition checkedFilesOf :: "Group list \<Rightarrow> selections \<Rightarrow> nat \<Rightarrow> filename list" where
  "checkedFilesOf groups finalStates groupIndex =
     filter (\<lambda>filename. map_of finalStates filename = Some True) (files (groups ! groupIndex))"

definition statusAfterSubmit :: "selections \<Rightarrow> filename \<Rightarrow> FileStatus" where
  "statusAfterSubmit finalStates filename =
     \<lparr>status = (if map_of finalStates filename = Some True then Saved else Removed),
      checked = (map_of finalStates filename = Some True)\<rparr>"

definition updateStatusesAfterSubmit :: "Group list \<Rightarrow> selections \<Rightarrow> nat \<Rightarrow> fileStatuses \<Rightarrow> fileStatuses" where
  "updateStatusesAfterSubmit groups finalStates groupIndex ctx =
     fold (\<lambda>filename c. c(filename \<mapsto> statusAfterSubmit finalStates filename))
          (files (groups ! groupIndex)) ctx"

text \<open>
  The invariant of the placing loop: \<^verbatim>\<open>reordered\<close> has no repetition and holds exactly the
  indices of \<^verbatim>\<open>placedGroups\<close>.
\<close>

definition placedInv :: "nat list \<times> nat set \<Rightarrow> bool" where
  "placedInv st \<longleftrightarrow> distinct (fst st) \<and> set (fst st) = snd st"

text \<open>Three groups of which the first and the third share the record B.\<close>

definition scenarioThree :: "Group list" where
  "scenarioThree =
     [\<lparr>files = [''A'', ''B''], max_similarity = 999 / 1000, similarities = []\<rparr>,
      \<lparr>files = [''C'', ''D''], max_similarity = 999 / 1000, similarities = []\<rparr>,
      \<lparr>files = [''B'', ''E''], max_similarity = 998 / 1000, similarities = []\<rparr>]"

text \<open>
  The set of values a record holds across the groups of a page that contain it, in the
  words of the specification.
\<close>

definition spec_valuesHeld ::
  "Group list \<Rightarrow> fileStatuses \<Rightarrow> autoSelections \<Rightarrow> nat list \<Rightarrow> filename \<Rightarrow> bool set" where
  "spec_valuesHeld groups ctx autoSel pageGroups filename =
     set (map (\<lambda>g. isCheckedIn ctx autoSel g filename)
              (filter (\<lambda>g. g < length groups \<and> filename \<in> set (files (groups ! g))) pageGroups))"

text \<open>
  Two more group lists for the range calculation: 5, 8 and 4 groups at the levels 100.0,
  99.9 and 99.8, and 10 groups at the one level 100.0.
\<close>

definition scenarioThreeLevels :: "Group list" where
  "scenarioThreeLevels =
     replicate 5 \<lparr>files = [''1.json'', ''2.json''], max_similarity = 1, similarities = []\<rparr> @
     replicate 8 \<lparr>files = [''3.json'', ''4.json''], max_similarity = 999 / 1000, similarities = []\<rparr> @
     replicate 4 \<lparr>files = [''5.json'', ''6.json''], max_similarity = 998 / 1000, similarities = []\<rparr>"

definition scenarioOneLevel :: "Group list" where
  "scenarioOneLevel =
     replicate 10 \<lparr>files = [''1.json'', ''2.json''], max_similarity = 1, similarities = []\<rparr>"


text \<open>
  Two records of unknown status with the same rank key.
\<close>

definition scenarioTie :: metadata where
  "scenarioTie =
     [''a7.json'' \<mapsto> \<lparr>hasYear = False, fileNum = 7\<rparr>,
      ''b7.json'' \<mapsto> \<lparr>hasYear = False, fileNum = 7\<rparr>]"

text \<open>
  A record R that two pages share: the group of R and X at level 99.9 is the first page,
  the group of R and Y at level 95.0 the second. X and Y have a year, R has none. The
  states below follow one run of the component: the selections that \<^verbatim>\<open>initializeGroups\<close>
  computes while no status is known, the user's toggle of R to keep on the first page, the
  statuses written back when the first page is submitted, and the selections after the
  effect has recomputed them for these statuses.
\<close>

definition crossGroups :: "Group list" where
  "crossGroups =
     [\<lparr>files = [''R'', ''X''], max_similarity = 999 / 1000, similarities = []\<rparr>,
      \<lparr>files = [''R'', ''Y''], max_similarity = 95 / 100, similarities = []\<rparr>]"

definition crossMeta :: metadata where
  "crossMeta =
     [''R'' \<mapsto> \<lparr>hasYear = False, fileNum = 3\<rparr>,
      ''X'' \<mapsto> \<lparr>hasYear = True, fileNum = 1\<rparr>,
      ''Y'' \<mapsto> \<lparr>hasYear = True, fileNum = 2\<rparr>]"

definition crossAfterToggle :: ViewState where
  "crossAfterToggle =
     handleFileToggleAll 1 ''physics'' crossGroups (999 / 10) (999 / 10) ''R'' True
       \<lparr>autoSelections = recomputeSelections Map.empty crossMeta False {} crossGroups Map.empty,
        userModifiedFiles = {}, localStore = None\<rparr>"

definition crossStatuses :: fileStatuses where
  "crossStatuses =
     (case fileFinalStates crossGroups (autoSelections crossAfterToggle)
             (getGroupsForCurrentPage crossGroups (999 / 10) (999 / 10)) of
        None \<Rightarrow> Map.empty
      | Some finalStates \<Rightarrow>
          fold (updateStatusesAfterSubmit crossGroups finalStates)
               (getGroupsForCurrentPage crossGroups (999 / 10) (999 / 10)) Map.empty)"

definition crossAfterSubmit :: autoSelections where
  "crossAfterSubmit =
     recomputeEffect False crossStatuses crossMeta False (userModifiedFiles crossAfterToggle)
       crossGroups (autoSelections crossAfterToggle)"

section \<open>Ranges and pages\<close>

text \<open>
  The level is rounded from the double product and the file number is the nearest double:
  0.8755 times 1000 is a double just above 875.5, so the level is 87.6, and a name whose
  digits read \<open>2 ^ 53 + 1\<close> has the file number \<open>2 ^ 53\<close>.
\<close>

lemma roundedSimilarity_double_product:
  "roundedSimilarity \<lparr>files = fs, max_similarity = 8755 / 10000, similarities = sims\<rparr> = 876 / 10"
  unfolding roundedSimilarity_def Group.simps by code_simp

lemma fileNumOf_nearest_double:
  "fileNumOf ''9007199254740993.json'' = 9007199254740992"
  unfolding fileNumOf_def by code_simp

lemma fileNumOf_no_digit: "fileNumOf ''x.json'' = 999999"
  unfolding fileNumOf_def by code_simp

lemma rangeLoop_None:
  "rangeLoop s e None xs acc =
     acc @ map fst (filter (\<lambda>ig. roundedSimilarity (snd ig) \<le> s \<and> e \<le> roundedSimilarity (snd ig)) xs)"
  by (induction xs arbitrary: acc) (auto simp: Let_def)

lemma set_calculateGroupsInRange:
  "i \<in> set (calculateGroupsInRange groups s e None) \<longleftrightarrow>
     i < length groups \<and> roundedSimilarity (groups ! i) \<le> s \<and> e \<le> roundedSimilarity (groups ! i)"
  by (auto simp: calculateGroupsInRange_def rangeLoop_None in_set_enumerate_eq image_iff)

lemma distinct_calculateGroupsInRange:
  "distinct (calculateGroupsInRange groups s e None)"
  by (simp add: calculateGroupsInRange_def rangeLoop_None distinct_map_filter)

lemma keys_fold_pushGrouped:
  "fst ` set (fold pushGrouped xs acc) =
     fst ` set acc \<union> (\<lambda>ig. roundedSimilarity (snd ig)) ` set xs"
  by (induction xs arbitrary: acc) (auto simp: pushGrouped_def Let_def dom_update)

lemma set_similarityLevels: "set (similarityLevels groups) = roundedSimilarity ` set groups"
proof -
  have "snd ` set (enumerate 0 groups) = set groups"
    by (metis map_snd_enumerate set_map)
  then show ?thesis
    unfolding similarityLevels_def groupsBySimilarity_def
    by (simp add: keys_fold_pushGrouped image_image[symmetric] del: image_image)
qed

lemma last_rev_sort_Min:
  fixes xs :: "rat list"
  assumes "xs \<noteq> []"
  shows "last (rev (sort xs)) = Min (set xs)"
proof -
  obtain a as where ys: "sort xs = a # as"
    using assms by (cases "sort xs") (auto dest: arg_cong[where f=length])
  have "sorted (a # as)" by (metis ys sorted_sort)
  then have le: "\<forall>y\<in>set (a # as). a \<le> y" by auto
  have mem: "set (a # as) = set xs" by (metis ys set_sort)
  have "Min (set xs) = a"
    using le mem by (intro Min_eqI) auto
  then show ?thesis by (simp add: ys last_rev)
qed

lemma similarityLevels_Nil: "similarityLevels groups = [] \<longleftrightarrow> groups = []"
  using set_similarityLevels[of groups] by (metis image_is_empty set_empty)

lemma last_similarityLevels:
  assumes "groups \<noteq> []"
  shows "last (similarityLevels groups) = Min (roundedSimilarity ` set groups)"
proof -
  have ne: "map fst (groupsBySimilarity groups) \<noteq> []"
    using assms similarityLevels_Nil[of groups] by (auto simp: similarityLevels_def)
  have "set (map fst (groupsBySimilarity groups)) = roundedSimilarity ` set groups"
    using set_similarityLevels[of groups] by (simp add: similarityLevels_def)
  then show ?thesis
    unfolding similarityLevels_def using last_rev_sort_Min[OF ne] by simp
qed

section \<open>Is there a next page?\<close>






section \<open>The range for a target page size\<close>

lemma levelTotal_0 [simp]:
  "levelTotal grouped (l # ls) 0 = length (groupsInLevel grouped l)"
  by (simp add: levelTotal_def)

lemma levelTotal_Suc [simp]:
  "levelTotal grouped (l # ls) (Suc k) = length (groupsInLevel grouped l) + levelTotal grouped ls k"
  by (simp add: levelTotal_def)

lemma over_implies_reached:
  assumes "(of_nat n :: rat) > of_int t * (3 / 2)"
  shows "spec_reachesTarget t n"
proof (cases "t \<ge> 0")
  case True
  then have "(of_int t :: rat) \<ge> 0" by simp
  then show ?thesis using assms unfolding spec_reachesTarget_def by simp
next
  case False
  then have "(of_int t :: rat) < 0" by simp
  moreover have "(of_nat n :: rat) \<ge> 0" by simp
  ultimately show ?thesis unfolding spec_reachesTarget_def by simp
qed

lemma expandRange_step:
  "expandRange grouped t (level # rest) (e0, n0) =
     (if spec_reachesTarget t (n0 + length (groupsInLevel grouped level))
      then (level, n0 + length (groupsInLevel grouped level))
      else expandRange grouped t rest (level, n0 + length (groupsInLevel grouped level)))"
  using over_implies_reached[of t "n0 + length (groupsInLevel grouped level)"]
  by (auto simp: Let_def spec_reachesTarget_def)

declare expandRange.simps(2) [simp del]

lemma expandRange_char:
  "(\<exists>k<length ls.
       expandRange grouped t ls (e0, n0) = (ls ! k, n0 + levelTotal grouped ls k) \<and>
       spec_reachesTarget t (n0 + levelTotal grouped ls k) \<and>
       (\<forall>j<k. \<not> spec_reachesTarget t (n0 + levelTotal grouped ls j))) \<or>
   ((\<forall>k<length ls. \<not> spec_reachesTarget t (n0 + levelTotal grouped ls k)) \<and>
    expandRange grouped t ls (e0, n0) =
      (if ls = [] then (e0, n0) else (last ls, n0 + levelTotal grouped ls (length ls - 1))))"
proof (induction ls arbitrary: e0 n0)
  case Nil
  then show ?case by simp
next
  case (Cons level rest)
  let ?c = "length (groupsInLevel grouped level)"
  show ?case
  proof (cases "spec_reachesTarget t (n0 + ?c)")
    case True
    then have "expandRange grouped t (level # rest) (e0, n0) = (level, n0 + ?c)"
      by (simp add: expandRange_step)
    then show ?thesis using True by (intro disjI1 exI[of _ 0]) simp
  next
    case False
    then have step: "expandRange grouped t (level # rest) (e0, n0) = expandRange grouped t rest (level, n0 + ?c)"
      by (simp add: expandRange_step)
    from Cons.IH[of level "n0 + ?c"] show ?thesis
    proof (elim disjE exE conjE)
      fix k
      assume k: "k < length rest"
        and eq: "expandRange grouped t rest (level, n0 + ?c) = (rest ! k, n0 + ?c + levelTotal grouped rest k)"
        and r: "spec_reachesTarget t (n0 + ?c + levelTotal grouped rest k)"
        and nr: "\<forall>j<k. \<not> spec_reachesTarget t (n0 + ?c + levelTotal grouped rest j)"
      have nr': "\<forall>j<Suc k. \<not> spec_reachesTarget t (n0 + levelTotal grouped (level # rest) j)"
      proof (intro allI impI)
        fix j assume "j < Suc k"
        then show "\<not> spec_reachesTarget t (n0 + levelTotal grouped (level # rest) j)"
          using False nr by (cases j) (auto simp: add.assoc)
      qed
      show ?thesis
        using k eq r nr' step
        by (intro disjI1 exI[of _ "Suc k"]) (simp add: add.assoc)
    next
      assume nr: "\<forall>k<length rest. \<not> spec_reachesTarget t (n0 + ?c + levelTotal grouped rest k)"
        and eq: "expandRange grouped t rest (level, n0 + ?c) =
          (if rest = [] then (level, n0 + ?c) else (last rest, n0 + ?c + levelTotal grouped rest (length rest - 1)))"
      have nr': "\<forall>j<length (level # rest). \<not> spec_reachesTarget t (n0 + levelTotal grouped (level # rest) j)"
      proof (intro allI impI)
        fix j assume "j < length (level # rest)"
        then show "\<not> spec_reachesTarget t (n0 + levelTotal grouped (level # rest) j)"
          using False nr by (cases j) (auto simp: add.assoc)
      qed
      have "expandRange grouped t (level # rest) (e0, n0) =
          (last (level # rest), n0 + levelTotal grouped (level # rest) (length (level # rest) - 1))"
      proof (cases rest)
        case Nil
        then show ?thesis using step eq by simp
      next
        case (Cons a as)
        then show ?thesis using step eq by (simp add: add.assoc)
      qed
      then show ?thesis using nr' by (intro disjI2) simp
    qed
  qed
qed

lemma findStartIndex_Some:
  "findStartIndex levels startPoint n = Some i \<Longrightarrow>
     n \<le> i \<and> i - n < length levels \<and> levels ! (i - n) \<le> startPoint \<and>
     (\<forall>j<i - n. \<not> levels ! j \<le> startPoint)"
proof (induction levels arbitrary: n)
  case Nil
  then show ?case by simp
next
  case (Cons level rest)
  show ?case
  proof (cases "level \<le> startPoint")
    case True
    then show ?thesis using Cons.prems by simp
  next
    case False
    then have rec: "findStartIndex rest startPoint (Suc n) = Some i" using Cons.prems by simp
    from Cons.IH[OF rec] have ih: "Suc n \<le> i" "i - Suc n < length rest"
      "rest ! (i - Suc n) \<le> startPoint" "\<forall>j<i - Suc n. \<not> rest ! j \<le> startPoint" by auto
    have eq: "i - n = Suc (i - Suc n)" using ih(1) by simp
    have "\<forall>j<i - n. \<not> (level # rest) ! j \<le> startPoint"
    proof (intro allI impI)
      fix j assume "j < i - n"
      then show "\<not> (level # rest) ! j \<le> startPoint"
        using False ih(4) eq by (cases j) auto
    qed
    then show ?thesis using ih eq by simp
  qed
qed

lemma findStartIndex_None:
  "findStartIndex levels startPoint n = None \<longleftrightarrow> (\<forall>l\<in>set levels. \<not> l \<le> startPoint)"
  by (induction levels arbitrary: n) auto

lemma levelTotal_mono:
  assumes "k \<le> k'"
  shows "levelTotal grouped ls k \<le> levelTotal grouped ls k'"
proof -
  have "take (Suc k') ls = take (Suc k) ls @ take (k' - k) (drop (Suc k) ls)"
    using assms take_add[of "Suc k" "k' - k" ls] by simp
  then show ?thesis by (simp add: levelTotal_def)
qed

lemma reached_not_below_half:
  assumes "spec_reachesTarget t n" "n \<le> m"
  shows "\<not> (of_nat m :: rat) < of_int t * (1 / 2)"
proof
  assume lt: "(of_nat m :: rat) < of_int t * (1 / 2)"
  have "(of_nat n :: rat) \<le> of_nat m" using assms(2) by simp
  moreover have "(of_int t :: rat) \<le> of_nat n" using assms(1) by (simp add: spec_reachesTarget_def)
  moreover have "(0 :: rat) \<le> of_nat m" by simp
  ultimately show False using lt by simp
qed

lemma calculateRange_found:
  fixes levels :: "rat list" and grouped :: "(rat \<times> nat list) list" and groups :: "Group list"
    and startPoint :: rat and t :: int and i :: nat
  assumes ne: "levels \<noteq> []" and idx: "findStartIndex levels startPoint 0 = Some i"
  defines "r \<equiv> calculateRangeFromTargetGroups levels grouped groups startPoint t"
  defines "ls \<equiv> drop i levels"
  shows "range_start r = levels ! i"
    and "(\<exists>k<length ls. range_end r = ls ! k \<and> spec_reachesTarget t (levelTotal grouped ls k) \<and>
              (\<forall>j<k. \<not> spec_reachesTarget t (levelTotal grouped ls j))) \<or>
         ((\<forall>k<length ls. \<not> spec_reachesTarget t (levelTotal grouped ls k)) \<and>
          range_end r = last levels)"
proof -
  have i: "i < length levels" using findStartIndex_Some[OF idx] by simp
  then have lsne: "ls \<noteq> []" and lastls: "last ls = last levels"
    by (simp_all add: ls_def)
  let ?ex = "expandRange grouped t ls (levels ! i, 0)"
  have r_eq: "r = (if (of_nat (snd ?ex) :: rat) < of_int t * (1 / 2) then
                 (if length (calculateGroupsInRange groups (levels ! i) (last levels) None) > 0
                  then \<lparr>range_start = levels ! i, range_end = last levels\<rparr>
                  else \<lparr>range_start = levels ! i, range_end = fst ?ex\<rparr>)
               else \<lparr>range_start = levels ! i, range_end = fst ?ex\<rparr>)"
    using ne idx by (simp add: r_def ls_def calculateRangeFromTargetGroups_def Let_def)
  show "range_start r = levels ! i" by (simp add: r_eq)
  from expandRange_char[of ls grouped t "levels ! i" 0]
  show "(\<exists>k<length ls. range_end r = ls ! k \<and> spec_reachesTarget t (levelTotal grouped ls k) \<and>
              (\<forall>j<k. \<not> spec_reachesTarget t (levelTotal grouped ls j))) \<or>
         ((\<forall>k<length ls. \<not> spec_reachesTarget t (levelTotal grouped ls k)) \<and>
          range_end r = last levels)"
  proof (elim disjE exE conjE)
    fix k
    assume k: "k < length ls"
      and eq: "?ex = (ls ! k, 0 + levelTotal grouped ls k)"
      and re: "spec_reachesTarget t (0 + levelTotal grouped ls k)"
      and nr: "\<forall>j<k. \<not> spec_reachesTarget t (0 + levelTotal grouped ls j)"
    have "\<not> (of_nat (snd ?ex) :: rat) < of_int t * (1 / 2)"
      using reached_not_below_half[of t "levelTotal grouped ls k" "levelTotal grouped ls k"] re eq
      by simp
    then have "range_end r = ls ! k" using eq by (simp add: r_eq)
    then show ?thesis using k re nr by auto
  next
    assume nr: "\<forall>k<length ls. \<not> spec_reachesTarget t (0 + levelTotal grouped ls k)"
      and eq: "?ex = (if ls = [] then (levels ! i, 0) else (last ls, 0 + levelTotal grouped ls (length ls - 1)))"
    have "fst ?ex = last levels" using eq lsne lastls by simp
    then have "range_end r = last levels" by (simp add: r_eq)
    then show ?thesis using nr by simp
  qed
qed

lemma min_level_covers:
  assumes "g < length groups"
  shows "last (similarityLevels groups) \<le> roundedSimilarity (groups ! g)"
proof -
  have "groups \<noteq> []" using assms by auto
  then have "last (similarityLevels groups) = Min (roundedSimilarity ` set groups)"
    by (rule last_similarityLevels)
  then show ?thesis using assms by simp
qed

lemma pushGrouped_lookup:
  "map_of (pushGrouped ig grouped) r =
     (if r = roundedSimilarity (snd ig)
      then Some ((case map_of grouped r of None \<Rightarrow> [] | Some l \<Rightarrow> l) @ [fst ig])
      else map_of grouped r)"
  by (simp add: pushGrouped_def Let_def update_conv')

lemma fold_pushGrouped_lookup:
  "map_of (fold pushGrouped xs acc) r =
     (if filter (\<lambda>ig. roundedSimilarity (snd ig) = r) xs = [] then map_of acc r
      else Some ((case map_of acc r of None \<Rightarrow> [] | Some l \<Rightarrow> l) @
                 map fst (filter (\<lambda>ig. roundedSimilarity (snd ig) = r) xs)))"
proof (induction xs arbitrary: acc)
  case Nil
  then show ?case by simp
next
  case (Cons ig xs)
  show ?case by (simp add: Cons.IH pushGrouped_lookup)
qed

lemma length_filter_enumerate:
  "length (filter (\<lambda>ig. P (snd ig)) (enumerate n xs)) = length (filter P xs)"
  by (induction xs arbitrary: n) auto

lemma groupsInLevel_derived:
  "length (groupsInLevel (groupsBySimilarity groups) level) = spec_groupsAtLevel groups level"
proof -
  let ?f = "filter (\<lambda>ig. roundedSimilarity (snd ig) = level) (enumerate 0 groups)"
  have len: "length ?f = length (filter (\<lambda>grp. roundedSimilarity grp = level) groups)"
    by (rule length_filter_enumerate)
  show ?thesis
  proof (cases "?f = []")
    case True
    then show ?thesis using len
      by (simp add: groupsInLevel_def groupsBySimilarity_def fold_pushGrouped_lookup spec_groupsAtLevel_def)
  next
    case False
    then show ?thesis using len
      by (simp add: groupsInLevel_def groupsBySimilarity_def fold_pushGrouped_lookup spec_groupsAtLevel_def)
  qed
qed

lemma levelTotal_derived:
  "levelTotal (groupsBySimilarity groups) ls k = spec_runningTotal groups ls k"
  by (simp add: levelTotal_def spec_runningTotal_def groupsInLevel_derived)

lemma pushGrouped_distinct:
  "distinct (map fst grouped) \<Longrightarrow> distinct (map fst (pushGrouped ig grouped))"
  by (simp add: pushGrouped_def Let_def distinct_update)

lemma fold_pushGrouped_distinct:
  "distinct (map fst acc) \<Longrightarrow> distinct (map fst (fold pushGrouped xs acc))"
  by (induction xs arbitrary: acc) (auto simp: pushGrouped_distinct)

lemma similarityLevels_sorted_list:
  "similarityLevels groups = rev (sorted_list_of_set (roundedSimilarity ` set groups))"
proof -
  let ?keys = "map fst (groupsBySimilarity groups)"
  have d: "distinct ?keys"
    unfolding groupsBySimilarity_def by (rule fold_pushGrouped_distinct) simp
  have s: "set ?keys = roundedSimilarity ` set groups"
    using set_similarityLevels[of groups] by (simp add: similarityLevels_def)
  have "sorted_list_of_set (set ?keys) = sort (remdups ?keys)"
    by (rule sorted_list_of_set_sort_remdups)
  moreover have "remdups ?keys = ?keys"
    using d by (rule distinct_remdups_id)
  ultimately have "sort ?keys = sorted_list_of_set (roundedSimilarity ` set groups)"
    using s by simp
  then show ?thesis by (simp add: similarityLevels_def)
qed

lemma length_calculateGroupsInRange:
  "length (calculateGroupsInRange groups s e None) =
     length (filter (\<lambda>grp. roundedSimilarity grp \<le> s \<and> e \<le> roundedSimilarity grp) groups)"
  using length_filter_enumerate[where P = "\<lambda>grp. roundedSimilarity grp \<le> s \<and> e \<le> roundedSimilarity grp"
      and n = 0 and xs = groups]
  by (simp add: calculateGroupsInRange_def rangeLoop_None)

lemma levels_strictly_decreasing: "sorted_wrt (\<lambda>x y. y < x) (similarityLevels groups)"
  unfolding similarityLevels_sorted_list sorted_wrt_rev
  by (rule strict_sorted_list_of_set)

lemma distinct_similarityLevels: "distinct (similarityLevels groups)"
  unfolding similarityLevels_sorted_list by simp

lemma range_as_levels:
  fixes levels :: "rat list"
  assumes sw: "sorted_wrt (\<lambda>x y. y < x) levels" and ik: "i + k < length levels" and v: "v \<in> set levels"
  shows "(levels ! (i + k) \<le> v \<and> v \<le> levels ! i) \<longleftrightarrow> v \<in> set (take (Suc k) (drop i levels))"
proof
  assume range: "levels ! (i + k) \<le> v \<and> v \<le> levels ! i"
  from v obtain m where m: "m < length levels" "levels ! m = v" by (auto simp: in_set_conv_nth)
  have "\<not> m < i"
  proof
    assume "m < i"
    then have "levels ! i < levels ! m" using sw ik by (intro sorted_wrt_nth_less[OF sw]) auto
    then show False using range m by simp
  qed
  moreover have "\<not> i + k < m"
  proof
    assume "i + k < m"
    then have "levels ! m < levels ! (i + k)" using m by (intro sorted_wrt_nth_less[OF sw]) auto
    then show False using range m by simp
  qed
  ultimately have b: "i \<le> m" "m - i < Suc k" by auto
  have "take (Suc k) (drop i levels) ! (m - i) = levels ! m"
    using b m by simp
  moreover have "m - i < length (take (Suc k) (drop i levels))"
    using b m by simp
  ultimately show "v \<in> set (take (Suc k) (drop i levels))"
    using m(2) by (metis nth_mem)
next
  assume "v \<in> set (take (Suc k) (drop i levels))"
  then obtain j where j: "j < length (take (Suc k) (drop i levels))"
      "take (Suc k) (drop i levels) ! j = v" by (auto simp: in_set_conv_nth)
  then have jk: "j \<le> k" and vj: "v = levels ! (i + j)" using ik by auto
  have a: "levels ! (i + k) \<le> levels ! (i + j)"
  proof (cases "j = k")
    case True
    then show ?thesis by simp
  next
    case False
    then have "i + j < i + k" using jk by simp
    then have "levels ! (i + k) < levels ! (i + j)" using ik by (intro sorted_wrt_nth_less[OF sw]) auto
    then show ?thesis by simp
  qed
  have b: "levels ! (i + j) \<le> levels ! i"
  proof (cases "j = 0")
    case True
    then show ?thesis by simp
  next
    case False
    then have "i < i + j" by simp
    then have "levels ! (i + j) < levels ! i" using ik jk by (intro sorted_wrt_nth_less[OF sw]) auto
    then show ?thesis by simp
  qed
  show "levels ! (i + k) \<le> v \<and> v \<le> levels ! i" using a b vj by simp
qed

lemma length_filter_disjoint:
  assumes "\<And>x. x \<in> set xs \<Longrightarrow> \<not> (P x \<and> Q x)"
  shows "length (filter (\<lambda>x. P x \<or> Q x) xs) = length (filter P xs) + length (filter Q xs)"
  using assms by (induction xs) auto

lemma count_by_levels:
  assumes "distinct ls"
  shows "length (filter (\<lambda>grp. roundedSimilarity grp \<in> set ls) groups) =
           sum_list (map (spec_groupsAtLevel groups) ls)"
  using assms
proof (induction ls)
  case Nil
  then show ?case by simp
next
  case (Cons l ls)
  have "length (filter (\<lambda>grp. roundedSimilarity grp = l \<or> roundedSimilarity grp \<in> set ls) groups) =
        length (filter (\<lambda>grp. roundedSimilarity grp = l) groups) +
        length (filter (\<lambda>grp. roundedSimilarity grp \<in> set ls) groups)"
    using Cons.prems by (intro length_filter_disjoint) auto
  then show ?case using Cons by (simp add: spec_groupsAtLevel_def)
qed

lemma page_size_is_running_total:
  assumes "i + k < length (similarityLevels groups)"
  shows "length (getGroupsForCurrentPage groups (similarityLevels groups ! i) (similarityLevels groups ! (i + k))) =
           spec_runningTotal groups (drop i (similarityLevels groups)) k"
proof -
  let ?levels = "similarityLevels groups"
  let ?ls = "take (Suc k) (drop i ?levels)"
  have mem: "\<And>grp. grp \<in> set groups \<Longrightarrow> roundedSimilarity grp \<in> set ?levels"
    by (simp add: set_similarityLevels)
  have "filter (\<lambda>grp. roundedSimilarity grp \<le> ?levels ! i \<and> ?levels ! (i + k) \<le> roundedSimilarity grp) groups =
        filter (\<lambda>grp. roundedSimilarity grp \<in> set ?ls) groups"
    using range_as_levels[OF levels_strictly_decreasing assms mem]
    by (intro filter_cong refl) auto
  moreover have "distinct ?ls"
    using distinct_similarityLevels[of groups] by (simp add: distinct_drop)
  ultimately show ?thesis
    using count_by_levels[of ?ls groups]
    by (simp add: getGroupsForCurrentPage_def length_calculateGroupsInRange spec_runningTotal_def)
qed

lemma calculateRange_no_start:
  assumes "levels \<noteq> []" and "findStartIndex levels startPoint 0 = None"
  shows "calculateRangeFromTargetGroups levels grouped groups startPoint t =
           \<lparr>range_start = last levels, range_end = last levels\<rparr>"
  using assms by (simp add: calculateRangeFromTargetGroups_def)

lemma calculateRange_no_levels:
  "calculateRangeFromTargetGroups [] grouped groups startPoint t =
           \<lparr>range_start = 100, range_end = 999 / 10\<rparr>"
  by (simp add: calculateRangeFromTargetGroups_def)

lemma rs_level_100 [simp]:
  "roundedSimilarity \<lparr>files = fs, max_similarity = 1, similarities = sims\<rparr> = 100"
  unfolding roundedSimilarity_def Group.simps by code_simp

lemma rs_level_999 [simp]:
  "roundedSimilarity \<lparr>files = fs, max_similarity = 999 / 1000, similarities = sims\<rparr> = 999 / 10"
  unfolding roundedSimilarity_def Group.simps by code_simp

lemma rs_level_998 [simp]:
  "roundedSimilarity \<lparr>files = fs, max_similarity = 998 / 1000, similarities = sims\<rparr> = 998 / 10"
  unfolding roundedSimilarity_def Group.simps by code_simp

lemma levels_scenarioLevels: "similarityLevels scenarioLevels = [100, 999 / 10]"
proof -
  have "roundedSimilarity ` set scenarioLevels = {100, 999 / 10}"
    by (auto simp: scenarioLevels_def)
  moreover have "sorted_list_of_set {100, 999 / 10 :: rat} = [999 / 10, 100]"
    by simp
  ultimately show ?thesis by (simp add: similarityLevels_sorted_list)
qed

lemma example_range:
  "calculateRangeFromTargetGroups (similarityLevels scenarioLevels) (groupsBySimilarity scenarioLevels)
       scenarioLevels 100 100 = \<lparr>range_start = 100, range_end = 999 / 10\<rparr>"
  unfolding levels_scenarioLevels
  by (simp add: calculateRangeFromTargetGroups_def expandRange_step groupsInLevel_derived
        spec_groupsAtLevel_def spec_reachesTarget_def scenarioLevels_def Let_def)

lemma example_page:
  "length (getGroupsForCurrentPage scenarioLevels 100 (999 / 10)) = 130"
  by (simp add: getGroupsForCurrentPage_def length_calculateGroupsInRange scenarioLevels_def)

text \<open>
  Claim C6, as the code has it. With the levels and buckets derived from the groups: a
  start point below every level gives the range from the lowest level to itself.
  Otherwise the range starts at the first level not above the start point, takes whole
  levels downwards and ends at the first level where the running total of groups is at
  least 0.8 times the target and at least the target, or at the lowest level when no level
  reaches that. The page of the range holds exactly the running total of groups. At a
  level that ends the range by the rule the total is at least the target and was below it
  one level earlier; it is not bounded by 1.5 times the target, since the level that
  crosses the target is taken whole. When the total down to the lowest level is below half
  the target the range ends at the lowest level, and a range that ends at the lowest
  level has every group at or below its start on the page. For a target of 100 with 50
  groups at level 100.0 and 80 groups at level 99.9 the range is 100.0 to 99.9 and covers
  130 groups.
\<close>

theorem calculateRange_stop_rule:
  "(let levels = similarityLevels groups;
        r = calculateRangeFromTargetGroups levels (groupsBySimilarity groups) groups startPoint t
    in
      (groups = [] \<longrightarrow> r = \<lparr>range_start = 100, range_end = 999 / 10\<rparr>) \<and>
      (groups \<noteq> [] \<and> (\<forall>l\<in>set levels. \<not> l \<le> startPoint) \<longrightarrow>
         r = \<lparr>range_start = last levels, range_end = last levels\<rparr>) \<and>
      (\<forall>i. findStartIndex levels startPoint 0 = Some i \<longrightarrow>
         (let ls = drop i levels in
            i < length levels \<and> levels ! i \<le> startPoint \<and> (\<forall>j<i. \<not> levels ! j \<le> startPoint) \<and>
            range_start r = levels ! i \<and>
            ((\<exists>k<length ls.
                 range_end r = ls ! k \<and>
                 spec_reachesTarget t (spec_runningTotal groups ls k) \<and>
                 (\<forall>j<k. \<not> spec_reachesTarget t (spec_runningTotal groups ls j)) \<and>
                 length (getGroupsForCurrentPage groups (range_start r) (range_end r)) =
                   spec_runningTotal groups ls k) \<or>
             ((\<forall>k<length ls. \<not> spec_reachesTarget t (spec_runningTotal groups ls k)) \<and>
              range_end r = last levels \<and>
              length (getGroupsForCurrentPage groups (range_start r) (range_end r)) =
                spec_runningTotal groups ls (length ls - 1))) \<and>
            ((of_nat (spec_runningTotal groups ls (length ls - 1)) :: rat) < of_int t * (1 / 2) \<longrightarrow>
               range_end r = last levels) \<and>
            (range_end r = last levels \<longrightarrow>
               (\<forall>g<length groups. roundedSimilarity (groups ! g) \<le> range_start r \<longrightarrow>
                  g \<in> set (getGroupsForCurrentPage groups (range_start r) (range_end r))))))) \<and>
   calculateRangeFromTargetGroups (similarityLevels scenarioLevels) (groupsBySimilarity scenarioLevels)
       scenarioLevels 100 100 = \<lparr>range_start = 100, range_end = 999 / 10\<rparr> \<and>
   length (getGroupsForCurrentPage scenarioLevels 100 (999 / 10)) = 130"
proof -
  define levels where "levels = similarityLevels groups"
  define r where "r = calculateRangeFromTargetGroups levels (groupsBySimilarity groups) groups startPoint t"
  have a: "groups = [] \<longrightarrow> r = \<lparr>range_start = 100, range_end = 999 / 10\<rparr>"
    using similarityLevels_Nil[of groups] by (auto simp: r_def levels_def calculateRange_no_levels)
  have b: "groups \<noteq> [] \<and> (\<forall>l\<in>set levels. \<not> l \<le> startPoint) \<longrightarrow>
         r = \<lparr>range_start = last levels, range_end = last levels\<rparr>"
  proof
    assume h: "groups \<noteq> [] \<and> (\<forall>l\<in>set levels. \<not> l \<le> startPoint)"
    then have ne: "levels \<noteq> []" using similarityLevels_Nil[of groups] by (simp add: levels_def)
    have "findStartIndex levels startPoint 0 = None" using h by (simp add: findStartIndex_None)
    with ne show "r = \<lparr>range_start = last levels, range_end = last levels\<rparr>"
      unfolding r_def by (rule calculateRange_no_start)
  qed
  have c: "let ls = drop i levels in
            i < length levels \<and> levels ! i \<le> startPoint \<and> (\<forall>j<i. \<not> levels ! j \<le> startPoint) \<and>
            range_start r = levels ! i \<and>
            ((\<exists>k<length ls.
                 range_end r = ls ! k \<and>
                 spec_reachesTarget t (spec_runningTotal groups ls k) \<and>
                 (\<forall>j<k. \<not> spec_reachesTarget t (spec_runningTotal groups ls j)) \<and>
                 length (getGroupsForCurrentPage groups (range_start r) (range_end r)) =
                   spec_runningTotal groups ls k) \<or>
             ((\<forall>k<length ls. \<not> spec_reachesTarget t (spec_runningTotal groups ls k)) \<and>
              range_end r = last levels \<and>
              length (getGroupsForCurrentPage groups (range_start r) (range_end r)) =
                spec_runningTotal groups ls (length ls - 1))) \<and>
            ((of_nat (spec_runningTotal groups ls (length ls - 1)) :: rat) < of_int t * (1 / 2) \<longrightarrow>
               range_end r = last levels) \<and>
            (range_end r = last levels \<longrightarrow>
               (\<forall>g<length groups. roundedSimilarity (groups ! g) \<le> range_start r \<longrightarrow>
                  g \<in> set (getGroupsForCurrentPage groups (range_start r) (range_end r))))"
    if idx: "findStartIndex levels startPoint 0 = Some i" for i
  proof -
    define ls where "ls = drop i levels"
    have i: "i < length levels" "levels ! i \<le> startPoint" "\<forall>j<i. \<not> levels ! j \<le> startPoint"
      using findStartIndex_Some[OF idx] by simp_all
    then have ne: "levels \<noteq> []" by auto
    have lsne: "ls \<noteq> []" and lastls: "last ls = last levels" and len: "length ls = length levels - i"
      using i(1) by (simp_all add: ls_def)
    have st: "range_start r = levels ! i"
      unfolding r_def by (rule calculateRange_found(1)[OF ne idx])
    have en0: "(\<exists>k<length ls. range_end r = ls ! k \<and>
                  spec_reachesTarget t (levelTotal (groupsBySimilarity groups) ls k) \<and>
                  (\<forall>j<k. \<not> spec_reachesTarget t (levelTotal (groupsBySimilarity groups) ls j))) \<or>
         ((\<forall>k<length ls. \<not> spec_reachesTarget t (levelTotal (groupsBySimilarity groups) ls k)) \<and>
          range_end r = last levels)"
      unfolding r_def ls_def by (rule calculateRange_found(2)[OF ne idx])
    have size: "length (getGroupsForCurrentPage groups (levels ! i) (ls ! k)) = spec_runningTotal groups ls k"
      if "k < length ls" for k
    proof -
      have "i + k < length (similarityLevels groups)" using that len i(1) by (simp add: levels_def)
      from page_size_is_running_total[OF this] show ?thesis
        using that i(1) by (simp add: ls_def levels_def)
    qed
    have lastk: "last levels = ls ! (length ls - 1)"
      using lsne lastls by (simp add: last_conv_nth)
    have en: "(\<exists>k<length ls.
                 range_end r = ls ! k \<and>
                 spec_reachesTarget t (spec_runningTotal groups ls k) \<and>
                 (\<forall>j<k. \<not> spec_reachesTarget t (spec_runningTotal groups ls j)) \<and>
                 length (getGroupsForCurrentPage groups (range_start r) (range_end r)) =
                   spec_runningTotal groups ls k) \<or>
             ((\<forall>k<length ls. \<not> spec_reachesTarget t (spec_runningTotal groups ls k)) \<and>
              range_end r = last levels \<and>
              length (getGroupsForCurrentPage groups (range_start r) (range_end r)) =
                spec_runningTotal groups ls (length ls - 1))"
      using en0
    proof (elim disjE exE conjE)
      fix k
      assume k: "k < length ls" and e: "range_end r = ls ! k"
        and re: "spec_reachesTarget t (levelTotal (groupsBySimilarity groups) ls k)"
        and nr: "\<forall>j<k. \<not> spec_reachesTarget t (levelTotal (groupsBySimilarity groups) ls j)"
      have "length (getGroupsForCurrentPage groups (range_start r) (range_end r)) = spec_runningTotal groups ls k"
        using size[OF k] st e by simp
      then show ?thesis using k e re nr by (auto simp: levelTotal_derived)
    next
      assume nr: "\<forall>k<length ls. \<not> spec_reachesTarget t (levelTotal (groupsBySimilarity groups) ls k)"
        and e: "range_end r = last levels"
      have "length ls - 1 < length ls" using lsne by simp
      from size[OF this] have "length (getGroupsForCurrentPage groups (range_start r) (range_end r)) =
          spec_runningTotal groups ls (length ls - 1)"
        using st e lastk by simp
      then show ?thesis using nr e by (auto simp: levelTotal_derived)
    qed
    have half: "range_end r = last levels"
      if lt: "(of_nat (spec_runningTotal groups ls (length ls - 1)) :: rat) < of_int t * (1 / 2)"
    proof -
      have "\<not> spec_reachesTarget t (spec_runningTotal groups ls k)" if "k < length ls" for k
      proof
        assume re: "spec_reachesTarget t (spec_runningTotal groups ls k)"
        have "levelTotal (groupsBySimilarity groups) ls k \<le> levelTotal (groupsBySimilarity groups) ls (length ls - 1)"
          using that by (intro levelTotal_mono) simp
        then have "spec_runningTotal groups ls k \<le> spec_runningTotal groups ls (length ls - 1)"
          by (simp add: levelTotal_derived)
        from reached_not_below_half[OF re this] lt show False by simp
      qed
      then show ?thesis using en by blast
    qed
    have cover: "\<forall>g<length groups. roundedSimilarity (groups ! g) \<le> range_start r \<longrightarrow>
              g \<in> set (getGroupsForCurrentPage groups (range_start r) (range_end r))"
      if "range_end r = last levels"
      using that min_level_covers[of _ groups]
      by (simp add: getGroupsForCurrentPage_def set_calculateGroupsInRange levels_def)
    show ?thesis
      unfolding Let_def ls_def[symmetric]
      using i st en half cover by blast
  qed
  show ?thesis
    unfolding Let_def levels_def[symmetric] r_def[symmetric]
    using a b c[unfolded Let_def] example_range example_page by blast
qed

lemma rs_level_998_norm [simp]:
  "roundedSimilarity \<lparr>files = fs, max_similarity = 499 / 500, similarities = sims\<rparr> = 499 / 5"
  unfolding roundedSimilarity_def Group.simps by code_simp

lemma levels_scenarioThreeLevels: "similarityLevels scenarioThreeLevels = [100, 999 / 10, 998 / 10]"
proof -
  have "roundedSimilarity ` set scenarioThreeLevels = {100, 999 / 10, 998 / 10}"
    by (auto simp: scenarioThreeLevels_def)
  moreover have "sorted_list_of_set {100, 999 / 10, 998 / 10 :: rat} = [998 / 10, 999 / 10, 100]"
    by simp
  ultimately show ?thesis by (simp add: similarityLevels_sorted_list)
qed

lemma levels_scenarioOneLevel: "similarityLevels scenarioOneLevel = [100]"
proof -
  have "roundedSimilarity ` set scenarioOneLevel = {100}"
    by (auto simp: scenarioOneLevel_def)
  then show ?thesis by (simp add: similarityLevels_sorted_list)
qed

lemma totals_scenarioThreeLevels:
  "spec_runningTotal scenarioThreeLevels [100, 999 / 10, 998 / 10] 0 = 5"
  "spec_runningTotal scenarioThreeLevels [100, 999 / 10, 998 / 10] (Suc 0) = 13"
  "spec_runningTotal scenarioThreeLevels [100, 999 / 10, 998 / 10] 2 = 17"
  by (simp_all add: spec_runningTotal_def spec_groupsAtLevel_def scenarioThreeLevels_def numeral_2_eq_2)

theorem calculateRange_stop_rule_witness:
  "(calculateRangeFromTargetGroups (similarityLevels scenarioThreeLevels)
       (groupsBySimilarity scenarioThreeLevels) scenarioThreeLevels 100 10 =
     \<lparr>range_start = 100, range_end = 999 / 10\<rparr> \<and>
   length (getGroupsForCurrentPage scenarioThreeLevels 100 (999 / 10)) = 13 \<and>
   spec_runningTotal scenarioThreeLevels (similarityLevels scenarioThreeLevels) 1 = 13 \<and>
   spec_reachesTarget 10 13 \<and> \<not> spec_reachesTarget 10 5) \<and>
   calculateRangeFromTargetGroups (similarityLevels scenarioThreeLevels)
       (groupsBySimilarity scenarioThreeLevels) scenarioThreeLevels 50 10 =
     \<lparr>range_start = 998 / 10, range_end = 998 / 10\<rparr> \<and>
   calculateRangeFromTargetGroups (similarityLevels []) (groupsBySimilarity []) [] 100 10 =
     \<lparr>range_start = 100, range_end = 999 / 10\<rparr> \<and>
   range_end (calculateRangeFromTargetGroups (similarityLevels scenarioThreeLevels)
       (groupsBySimilarity scenarioThreeLevels) scenarioThreeLevels 100 40) = 998 / 10 \<and>
   16 \<in> set (getGroupsForCurrentPage scenarioThreeLevels 100 (998 / 10))"
proof -
  have first: "calculateRangeFromTargetGroups (similarityLevels scenarioThreeLevels)
       (groupsBySimilarity scenarioThreeLevels) scenarioThreeLevels 100 10 =
     \<lparr>range_start = 100, range_end = 999 / 10\<rparr> \<and>
   length (getGroupsForCurrentPage scenarioThreeLevels 100 (999 / 10)) = 13 \<and>
   spec_runningTotal scenarioThreeLevels (similarityLevels scenarioThreeLevels) 1 = 13 \<and>
   spec_reachesTarget 10 13 \<and> \<not> spec_reachesTarget 10 5"
  proof -
    define r where "r = calculateRangeFromTargetGroups (similarityLevels scenarioThreeLevels)
         (groupsBySimilarity scenarioThreeLevels) scenarioThreeLevels 100 10"
    have idx: "findStartIndex [100, 999 / 10, 998 / 10] 100 0 = Some 0" by simp
    have reach: "\<not> spec_reachesTarget 10 5" "spec_reachesTarget 10 13" "spec_reachesTarget 10 17"
      by (simp_all add: spec_reachesTarget_def)
    note inst = calculateRange_stop_rule [of scenarioThreeLevels 100 10,
        unfolded Let_def levels_scenarioThreeLevels, folded r_def [unfolded levels_scenarioThreeLevels]]
    from inst idx have st: "range_start r = 100" by simp
    from inst idx have
      "(\<exists>k<3. range_end r = [100, 999 / 10, 998 / 10] ! k \<and>
          spec_reachesTarget 10 (spec_runningTotal scenarioThreeLevels [100, 999 / 10, 998 / 10] k) \<and>
          (\<forall>j<k. \<not> spec_reachesTarget 10 (spec_runningTotal scenarioThreeLevels [100, 999 / 10, 998 / 10] j)) \<and>
          length (getGroupsForCurrentPage scenarioThreeLevels (range_start r) (range_end r)) =
            spec_runningTotal scenarioThreeLevels [100, 999 / 10, 998 / 10] k) \<or>
       (\<forall>k<3. \<not> spec_reachesTarget 10 (spec_runningTotal scenarioThreeLevels [100, 999 / 10, 998 / 10] k))"
      by (auto simp: numeral_3_eq_3)
    then have en: "range_end r = 999 / 10 \<and>
        length (getGroupsForCurrentPage scenarioThreeLevels (range_start r) (range_end r)) = 13"
    proof (elim disjE exE conjE)
      fix k
      assume k: "k < 3" and e: "range_end r = [100, 999 / 10, 998 / 10] ! k"
        and re: "spec_reachesTarget 10 (spec_runningTotal scenarioThreeLevels [100, 999 / 10, 998 / 10] k)"
        and nr: "\<forall>j<k. \<not> spec_reachesTarget 10 (spec_runningTotal scenarioThreeLevels [100, 999 / 10, 998 / 10] j)"
        and len: "length (getGroupsForCurrentPage scenarioThreeLevels (range_start r) (range_end r)) =
            spec_runningTotal scenarioThreeLevels [100, 999 / 10, 998 / 10] k"
      from k have "k = 0 \<or> k = Suc 0 \<or> k = 2" by auto
      then show ?thesis
      proof (elim disjE)
        assume "k = 0" with re reach totals_scenarioThreeLevels show ?thesis by simp
      next
        assume "k = Suc 0" with e len totals_scenarioThreeLevels show ?thesis by simp
      next
        assume k2: "k = 2"
        with nr have "\<not> spec_reachesTarget 10 (spec_runningTotal scenarioThreeLevels [100, 999 / 10, 998 / 10] (Suc 0))"
          by simp
        with reach totals_scenarioThreeLevels show ?thesis by simp
      qed
    next
      assume "\<forall>k<3. \<not> spec_reachesTarget 10 (spec_runningTotal scenarioThreeLevels [100, 999 / 10, 998 / 10] k)"
      then have "\<not> spec_reachesTarget 10 (spec_runningTotal scenarioThreeLevels [100, 999 / 10, 998 / 10] 2)"
        by simp
      with reach totals_scenarioThreeLevels show ?thesis by simp
    qed
    have "r = \<lparr>range_start = 100, range_end = 999 / 10\<rparr>" using st en by (cases r) simp
    moreover have "length (getGroupsForCurrentPage scenarioThreeLevels 100 (999 / 10)) = 13"
    proof -
      from en have e: "range_end r = 999 / 10" ..
      from en have "length (getGroupsForCurrentPage scenarioThreeLevels (range_start r) (range_end r)) = 13" ..
      then show ?thesis unfolding st e .
    qed
    ultimately show ?thesis
      using totals_scenarioThreeLevels reach
      by (simp add: r_def levels_scenarioThreeLevels)
  qed
  have second: "calculateRangeFromTargetGroups (similarityLevels scenarioThreeLevels)
       (groupsBySimilarity scenarioThreeLevels) scenarioThreeLevels 50 10 =
     \<lparr>range_start = 998 / 10, range_end = 998 / 10\<rparr> \<and>
   calculateRangeFromTargetGroups (similarityLevels []) (groupsBySimilarity []) [] 100 10 =
     \<lparr>range_start = 100, range_end = 999 / 10\<rparr> \<and>
   range_end (calculateRangeFromTargetGroups (similarityLevels scenarioThreeLevels)
       (groupsBySimilarity scenarioThreeLevels) scenarioThreeLevels 100 40) = 998 / 10 \<and>
   16 \<in> set (getGroupsForCurrentPage scenarioThreeLevels 100 (998 / 10))"
  proof -
    have ne: "scenarioThreeLevels \<noteq> []" by (simp add: scenarioThreeLevels_def)
    have below: "\<forall>l\<in>set [100, 999 / 10, 998 / 10 :: rat]. \<not> l \<le> 50" by simp
    have idx: "findStartIndex [100, 999 / 10, 998 / 10] 100 0 = Some 0" by simp
    note low = calculateRange_stop_rule [of scenarioThreeLevels 50 10,
        unfolded Let_def levels_scenarioThreeLevels]
    note empty = calculateRange_stop_rule [of "[]" 100 10, unfolded Let_def]
    note half = calculateRange_stop_rule [of scenarioThreeLevels 100 40,
        unfolded Let_def levels_scenarioThreeLevels]
    have a: "calculateRangeFromTargetGroups [100, 999 / 10, 998 / 10]
         (groupsBySimilarity scenarioThreeLevels) scenarioThreeLevels 50 10 =
       \<lparr>range_start = 998 / 10, range_end = 998 / 10\<rparr>"
      using low ne below by simp
    have b: "calculateRangeFromTargetGroups (similarityLevels []) (groupsBySimilarity []) [] 100 10 =
       \<lparr>range_start = 100, range_end = 999 / 10\<rparr>"
      using empty by simp
    have small: "(of_nat (spec_runningTotal scenarioThreeLevels [100, 999 / 10, 998 / 10] 2) :: rat) < of_int 40 * (1 / 2)"
      using totals_scenarioThreeLevels by simp
    define r where "r = calculateRangeFromTargetGroups [100, 999 / 10, 998 / 10]
         (groupsBySimilarity scenarioThreeLevels) scenarioThreeLevels 100 40"
    have c: "range_start r = 100 \<and> range_end r = 998 / 10"
      using half[folded r_def] idx small by (simp add: numeral_2_eq_2)
    have g: "(16::nat) < length scenarioThreeLevels" by (simp add: scenarioThreeLevels_def)
    have lv: "roundedSimilarity (scenarioThreeLevels ! 16) \<le> 100"
      by (simp add: scenarioThreeLevels_def nth_append)
    have d: "16 \<in> set (getGroupsForCurrentPage scenarioThreeLevels 100 (998 / 10))"
      using half[folded r_def] idx c g lv by simp
    show ?thesis using a b c d by (simp add: levels_scenarioThreeLevels r_def)
  qed
  show ?thesis using first second by blast
qed

theorem calculateRange_window_counterexample:
  "calculateRangeFromTargetGroups (similarityLevels scenarioOneLevel)
       (groupsBySimilarity scenarioOneLevel) scenarioOneLevel 100 2 =
     \<lparr>range_start = 100, range_end = 100\<rparr> \<and>
   length (getGroupsForCurrentPage scenarioOneLevel 100 100) = 10 \<and>
   \<not> ((of_nat 10 :: rat) \<le> of_int 2 * (3 / 2))"
  unfolding levels_scenarioOneLevel
  by (simp add: calculateRangeFromTargetGroups_def expandRange_step groupsInLevel_derived
        spec_groupsAtLevel_def spec_reachesTarget_def scenarioOneLevel_def Let_def
        getGroupsForCurrentPage_def length_calculateGroupsInRange)

section \<open>Readiness of a page for submission\<close>

lemma groupHasSelections_iff:
  assumes "g < length groups"
  shows "groupHasSelections groups autoSel g \<longleftrightarrow>
     (\<exists>sel. autoSel g = Some sel \<and> sel \<noteq> [] \<and> (\<forall>f\<in>set (files (groups ! g)). map_of sel f \<noteq> None))"
  using assms by (auto simp: groupHasSelections_def groupAt_def list_all_iff split: option.splits)

text \<open>
  Claim C9, as the code has it. \<open>allGroupsHaveAutoSelections\<close> returns true if and only
  if the page has at least one group and every group on the page has a non-empty
  selections object in which every record of the group has an explicit entry. When no
  group has an empty file list (a duplicate group has at least two records) this is: the
  page has at least one group and every record in every group on the page has an explicit
  entry. A page with zero groups is never ready.
\<close>

theorem page_ready_iff:
  "(allGroupsHaveAutoSelections groups autoSel rangeStart rangeEnd \<longleftrightarrow>
      getGroupsForCurrentPage groups rangeStart rangeEnd \<noteq> [] \<and>
      (\<forall>g\<in>set (getGroupsForCurrentPage groups rangeStart rangeEnd).
         \<exists>sel. autoSel g = Some sel \<and> sel \<noteq> [] \<and>
               (\<forall>f\<in>set (files (groups ! g)). map_of sel f \<noteq> None))) \<and>
   ((\<forall>grp\<in>set groups. files grp \<noteq> []) \<longrightarrow>
     (allGroupsHaveAutoSelections groups autoSel rangeStart rangeEnd \<longleftrightarrow>
        getGroupsForCurrentPage groups rangeStart rangeEnd \<noteq> [] \<and>
        spec_isPageReadyForSubmit groups autoSel (getGroupsForCurrentPage groups rangeStart rangeEnd)))"
proof -
  let ?page = "getGroupsForCurrentPage groups rangeStart rangeEnd"
  have valid: "\<And>g. g \<in> set ?page \<Longrightarrow> g < length groups"
    by (simp add: getGroupsForCurrentPage_def set_calculateGroupsInRange)
  have A: "allGroupsHaveAutoSelections groups autoSel rangeStart rangeEnd \<longleftrightarrow>
      ?page \<noteq> [] \<and>
      (\<forall>g\<in>set ?page.
         \<exists>sel. autoSel g = Some sel \<and> sel \<noteq> [] \<and> (\<forall>f\<in>set (files (groups ! g)). map_of sel f \<noteq> None))"
    using valid by (auto simp: allGroupsHaveAutoSelections_def Let_def list_all_iff groupHasSelections_iff)
  have B: "spec_isPageReadyForSubmit groups autoSel ?page \<longleftrightarrow>
       (\<forall>g\<in>set ?page.
         \<exists>sel. autoSel g = Some sel \<and> sel \<noteq> [] \<and> (\<forall>f\<in>set (files (groups ! g)). map_of sel f \<noteq> None))"
    if ne: "\<forall>grp\<in>set groups. files grp \<noteq> []"
  proof -
    have "\<And>g. g \<in> set ?page \<Longrightarrow> files (groups ! g) \<noteq> []"
      using ne valid by auto
    then have ex: "\<And>g. g \<in> set ?page \<Longrightarrow> \<exists>f. f \<in> set (files (groups ! g))"
      by (meson ex_in_conv set_empty)
    have "(case groupAt groups g of None \<Rightarrow> True
            | Some grp \<Rightarrow> \<forall>filename\<in>set (files grp).
                 case autoSel g of None \<Rightarrow> False | Some sel \<Rightarrow> map_of sel filename \<noteq> None) \<longleftrightarrow>
          (\<exists>sel. autoSel g = Some sel \<and> sel \<noteq> [] \<and> (\<forall>f\<in>set (files (groups ! g)). map_of sel f \<noteq> None))"
      if g: "g \<in> set ?page" for g
    proof -
      obtain f where f: "f \<in> set (files (groups ! g))" using ex[OF g] by blast
      show ?thesis
      proof (cases "autoSel g")
        case None
        then show ?thesis using f valid[OF g] by (auto simp: groupAt_def)
      next
        case (Some sel)
        then show ?thesis using f valid[OF g] by (auto simp: groupAt_def)
      qed
    qed
    then show ?thesis
      unfolding spec_isPageReadyForSubmit_def list_all_iff by simp
  qed
  show ?thesis using A B by blast
qed

theorem page_ready_iff_witness:
  "allGroupsHaveAutoSelections scenarioGroups
     [0 \<mapsto> [(''A'', True), (''B'', False)], 1 \<mapsto> [(''B'', False), (''C'', True)]] (999 / 10) (998 / 10) \<and>
   getGroupsForCurrentPage scenarioGroups (999 / 10) (998 / 10) \<noteq> [] \<and>
   spec_isPageReadyForSubmit scenarioGroups
     [0 \<mapsto> [(''A'', True), (''B'', False)], 1 \<mapsto> [(''B'', False), (''C'', True)]]
     (getGroupsForCurrentPage scenarioGroups (999 / 10) (998 / 10))"
proof -
  have ne: "\<forall>grp\<in>set scenarioGroups. files grp \<noteq> []"
    by (simp add: scenarioGroups_def)
  have ready: "allGroupsHaveAutoSelections scenarioGroups
     [0 \<mapsto> [(''A'', True), (''B'', False)], 1 \<mapsto> [(''B'', False), (''C'', True)]] (999 / 10) (998 / 10)"
    unfolding scenarioGroups_def by code_simp
  show ?thesis
    using ne ready
      page_ready_iff[of scenarioGroups
        "[0 \<mapsto> [(''A'', True), (''B'', False)], 1 \<mapsto> [(''B'', False), (''C'', True)]]"
        "999 / 10" "998 / 10"]
    by blast
qed

text \<open>
  The claim as the specification words it fails on a page with zero groups: there every
  record in every group on the page has an entry, yet the page is not ready.
\<close>

theorem page_ready_counterexample:
  "getGroupsForCurrentPage [] 100 (999 / 10) = [] \<and>
   spec_isPageReadyForSubmit [] Map.empty (getGroupsForCurrentPage [] 100 (999 / 10)) \<and>
   \<not> allGroupsHaveAutoSelections [] Map.empty 100 (999 / 10)"
  by code_simp

section \<open>The exhaustive heuristic\<close>

lemma compareUnknown_le: "compareUnknown a b \<le> 0 \<longleftrightarrow> spec_ranksAtLeast a b"
  by (auto simp: compareUnknown_def spec_ranksAtLeast_def)

lemma ranks_refl: "spec_ranksAtLeast a a"
  by (simp add: spec_ranksAtLeast_def)

lemma ranks_total: "\<not> spec_ranksAtLeast a b \<Longrightarrow> spec_ranksAtLeast b a"
  by (auto simp: spec_ranksAtLeast_def)

lemma ranks_trans: "spec_ranksAtLeast a b \<Longrightarrow> spec_ranksAtLeast b c \<Longrightarrow> spec_ranksAtLeast a c"
  by (auto simp: spec_ranksAtLeast_def)

lemma sortBy_Cons: "sortBy cmp (x # xs) = insertBy cmp x (sortBy cmp xs)"
  by (simp add: sortBy_def)

lemma sortBy_Nil [simp]: "sortBy cmp [] = []"
  by (simp add: sortBy_def)

lemma insertBy_not_Nil [simp]: "insertBy cmp x ys \<noteq> []"
  by (cases ys) auto

lemma sortBy_eq_Nil [simp]: "sortBy cmp xs = [] \<longleftrightarrow> xs = []"
  by (cases xs) (auto simp: sortBy_Cons)

lemma hd_insertBy: "hd (insertBy cmp x ys) = (if ys = [] \<or> cmp x (hd ys) \<le> 0 then x else hd ys)"
  by (cases ys) auto

lemma set_insertBy [simp]: "set (insertBy cmp x ys) = insert x (set ys)"
  by (induction ys) auto

lemma set_sortBy [simp]: "set (sortBy cmp xs) = set xs"
  by (induction xs) (auto simp: sortBy_Cons)

lemma mset_insertBy [simp]: "mset (insertBy cmp x ys) = add_mset x (mset ys)"
  by (induction ys) auto

lemma mset_sortBy [simp]: "mset (sortBy cmp xs) = mset xs"
  by (induction xs) (auto simp: sortBy_Cons)

lemma hd_sortBy_compareUnknown:
  assumes "xs \<noteq> []"
  shows "\<exists>ys zs. xs = ys @ hd (sortBy compareUnknown xs) # zs \<and>
           (\<forall>y\<in>set ys. \<not> spec_ranksAtLeast y (hd (sortBy compareUnknown xs))) \<and>
           (\<forall>y\<in>set xs. spec_ranksAtLeast (hd (sortBy compareUnknown xs)) y)"
  using assms
proof (induction xs)
  case Nil
  then show ?case by simp
next
  case (Cons x xs)
  show ?case
  proof (cases "xs = []")
    case True
    then have "hd (sortBy compareUnknown (x # xs)) = x" by (simp add: sortBy_Cons)
    then show ?thesis using True by (intro exI[of _ "[]"] exI[of _ "[]"]) (simp add: ranks_refl)
  next
    case False
    let ?w = "hd (sortBy compareUnknown xs)"
    from Cons.IH[OF False] obtain ys zs where
      split: "xs = ys @ ?w # zs" and worse: "\<forall>y\<in>set ys. \<not> spec_ranksAtLeast y ?w"
      and best: "\<forall>y\<in>set xs. spec_ranksAtLeast ?w y" by blast
    show ?thesis
    proof (cases "spec_ranksAtLeast x ?w")
      case True
      then have hd: "hd (sortBy compareUnknown (x # xs)) = x"
        by (simp add: sortBy_Cons hd_insertBy compareUnknown_le)
      have "\<forall>y\<in>set (x # xs). spec_ranksAtLeast x y"
        using True best ranks_trans ranks_refl by auto
      then show ?thesis unfolding hd by (intro exI[of _ "[]"] exI[of _ xs]) simp
    next
      case no: False
      then have hd: "hd (sortBy compareUnknown (x # xs)) = ?w"
        using False by (simp add: sortBy_Cons hd_insertBy compareUnknown_le)
      have "x # xs = (x # ys) @ ?w # zs" using split by simp
      moreover have "\<forall>y\<in>set (x # ys). \<not> spec_ranksAtLeast y ?w" using no worse by simp
      moreover have "\<forall>y\<in>set (x # xs). spec_ranksAtLeast ?w y" using best ranks_total[OF no] by simp
      ultimately show ?thesis unfolding hd by blast
    qed
  qed
qed

lemma classify_fold_snd:
  "snd (fold (classifyFile ctx meta) fileList acc) =
     snd acc @ map (unknownEntry meta) (filter (\<lambda>f. statusOf ctx f = Unknown) fileList)"
  by (induction fileList arbitrary: acc) (auto simp: classifyFile_def split: status.splits)

lemma classify_fold_fst:
  "map_of (fst (fold (classifyFile ctx meta) fileList acc)) f =
     (if f \<in> set fileList then Some (statusOf ctx f = Saved) else map_of (fst acc) f)"
  by (induction fileList arbitrary: acc) (auto simp: classifyFile_def update_conv' split: status.splits)

lemma uFilename_unknownEntry [simp]: "uFilename (unknownEntry meta f) = f"
  by (simp add: unknownEntry_def split: option.splits)

lemma autoSelect_exhaustive_lookup:
  assumes "filter (\<lambda>f. statusOf ctx f = Unknown) fileList \<noteq> []"
  shows "map_of (autoSelectBestMCQ ctx fileList meta False) f =
     (if f = uFilename (hd (sortBy compareUnknown
                (map (unknownEntry meta) (filter (\<lambda>f. statusOf ctx f = Unknown) fileList))))
      then Some True
      else if f \<in> set fileList then Some (statusOf ctx f = Saved) else None)"
proof -
  have ne: "fileList \<noteq> []" using assms by auto
  show ?thesis
    using assms ne
    by (simp add: autoSelectBestMCQ_def Let_def classify_fold_snd classify_fold_fst update_conv')
qed

lemma classifyFile_cong:
  assumes "statusOf ctx f = Unknown \<longrightarrow> unknownEntry meta' f = unknownEntry meta f"
  shows "classifyFile ctx meta' f = classifyFile ctx meta f"
  using assms by (auto simp: classifyFile_def fun_eq_iff split: status.splits)

lemma autoSelect_meta_cong:
  assumes "\<forall>f\<in>set fileList. statusOf ctx f = Unknown \<longrightarrow> unknownEntry meta' f = unknownEntry meta f"
  shows "autoSelectBestMCQ ctx fileList meta' useCheckAllMode = autoSelectBestMCQ ctx fileList meta useCheckAllMode"
proof -
  have "fold (classifyFile ctx meta') fileList ([], []) = fold (classifyFile ctx meta) fileList ([], [])"
    using assms by (intro fold_cong) (auto intro: classifyFile_cong)
  then show ?thesis by (simp add: autoSelectBestMCQ_def)
qed

lemma ranksAtLeast_key:
  "spec_ranksAtLeast (unknownEntry meta a) (unknownEntry meta b) \<longleftrightarrow>
     \<not> spec_outranks (spec_rankKey meta b) (spec_rankKey meta a)"
  by (auto simp: spec_ranksAtLeast_def spec_outranks_def spec_rankKey_def unknownEntry_def
           split: option.splits)

lemma unknownEntry_key:
  "spec_rankKey meta' f = spec_rankKey meta f \<Longrightarrow> unknownEntry meta' f = unknownEntry meta f"
  by (auto simp: spec_rankKey_def unknownEntry_def split: option.splits)

lemma outranks_total: "a \<noteq> b \<Longrightarrow> spec_outranks a b \<or> spec_outranks b a"
  by (cases a; cases b) (auto simp: spec_outranks_def)

lemma autoSelect_no_unknown_lookup:
  assumes "filter (\<lambda>f. statusOf ctx f = Unknown) fileList = []"
  shows "map_of (autoSelectBestMCQ ctx fileList meta False) f =
     (if f \<in> set fileList then Some (statusOf ctx f = Saved) else None)"
  using assms
  by (simp add: autoSelectBestMCQ_def Let_def classify_fold_snd classify_fold_fst)

lemma exhaustive_winner:
  assumes ne: "filter (\<lambda>f. statusOf ctx f = Unknown) fileList \<noteq> []"
  shows "\<exists>w\<in>set fileList. statusOf ctx w = Unknown \<and>
        (\<forall>f. map_of (autoSelectBestMCQ ctx fileList meta False) f =
           (if f = w then Some True
            else if f \<in> set fileList then Some (statusOf ctx f = Saved) else None)) \<and>
        (\<forall>f\<in>set fileList. statusOf ctx f = Unknown \<longrightarrow>
            \<not> spec_outranks (spec_rankKey meta f) (spec_rankKey meta w)) \<and>
        (\<forall>f\<in>set (takeWhile (\<lambda>f. f \<noteq> w) (filter (\<lambda>f. statusOf ctx f = Unknown) fileList)).
            spec_outranks (spec_rankKey meta w) (spec_rankKey meta f))"
proof -
  let ?unk = "filter (\<lambda>f. statusOf ctx f = Unknown) fileList"
  let ?E = "unknownEntry meta"
  let ?sel = "autoSelectBestMCQ ctx fileList meta False"
  let ?w = "hd (sortBy compareUnknown (map ?E ?unk))"
  have ne': "map ?E ?unk \<noteq> []" using ne by simp
  from hd_sortBy_compareUnknown[OF ne'] obtain ys zs where
    split: "map ?E ?unk = ys @ ?w # zs"
    and worse: "\<forall>y\<in>set ys. \<not> spec_ranksAtLeast y ?w"
    and best: "\<forall>y\<in>set (map ?E ?unk). spec_ranksAtLeast ?w y" by blast
  from split obtain us wf vs where
    unk: "?unk = us @ wf # vs" and us: "map ?E us = ys" and wf: "?E wf = ?w"
    by (auto simp: map_eq_append_conv map_eq_Cons_conv)
  have wname: "uFilename ?w = wf" using wf[symmetric] by simp
  have wmem: "wf \<in> set ?unk" using unk by simp
  then have w1: "wf \<in> set fileList" and w2: "statusOf ctx wf = Unknown" by auto
  have look: "\<forall>f. map_of ?sel f =
     (if f = wf then Some True else if f \<in> set fileList then Some (statusOf ctx f = Saved) else None)"
    using autoSelect_exhaustive_lookup[OF ne, of meta] wname by simp
  have "\<forall>f\<in>set fileList. statusOf ctx f = Unknown \<longrightarrow> spec_ranksAtLeast (?E wf) (?E f)"
    using best wf by auto
  then have c: "\<forall>f\<in>set fileList. statusOf ctx f = Unknown \<longrightarrow>
      \<not> spec_outranks (spec_rankKey meta f) (spec_rankKey meta wf)"
    by (simp add: ranksAtLeast_key)
  have usworse: "\<forall>f\<in>set us. \<not> spec_ranksAtLeast (?E f) (?E wf)"
    using worse us wf by auto
  then have "\<forall>f\<in>set us. f \<noteq> wf" using ranks_refl by blast
  then have "takeWhile (\<lambda>f. f \<noteq> wf) ?unk = us"
    unfolding unk by (simp add: takeWhile_append2)
  then have d: "\<forall>f\<in>set (takeWhile (\<lambda>f. f \<noteq> wf) ?unk).
      spec_outranks (spec_rankKey meta wf) (spec_rankKey meta f)"
    using usworse by (simp add: ranksAtLeast_key)
  show ?thesis using w1 w2 look c d by blast
qed

lemma exhaustive_order_free:
  assumes same: "set fileList' = set fileList"
    and inj: "\<forall>f\<in>set fileList. \<forall>g\<in>set fileList.
               statusOf ctx f = Unknown \<and> statusOf ctx g = Unknown \<and> f \<noteq> g \<longrightarrow>
               spec_rankKey meta f \<noteq> spec_rankKey meta g"
  shows "map_of (autoSelectBestMCQ ctx fileList' meta False) f =
         map_of (autoSelectBestMCQ ctx fileList meta False) f"
proof (cases "filter (\<lambda>f. statusOf ctx f = Unknown) fileList = []")
  case True
  then have "filter (\<lambda>f. statusOf ctx f = Unknown) fileList' = []"
    using same by (auto simp: filter_empty_conv)
  then show ?thesis using True same by (simp add: autoSelect_no_unknown_lookup)
next
  case False
  then have ne': "filter (\<lambda>f. statusOf ctx f = Unknown) fileList' \<noteq> []"
    using same by (auto simp: filter_empty_conv)
  from exhaustive_winner[OF False, of meta] obtain w where
    w: "w \<in> set fileList" "statusOf ctx w = Unknown"
    and lw: "\<forall>f. map_of (autoSelectBestMCQ ctx fileList meta False) f =
           (if f = w then Some True
            else if f \<in> set fileList then Some (statusOf ctx f = Saved) else None)"
    and tw: "\<forall>f\<in>set fileList. statusOf ctx f = Unknown \<longrightarrow>
            \<not> spec_outranks (spec_rankKey meta f) (spec_rankKey meta w)"
    by blast
  from exhaustive_winner[OF ne', of meta] obtain v where
    v: "v \<in> set fileList'" "statusOf ctx v = Unknown"
    and lv: "\<forall>f. map_of (autoSelectBestMCQ ctx fileList' meta False) f =
           (if f = v then Some True
            else if f \<in> set fileList' then Some (statusOf ctx f = Saved) else None)"
    and tv: "\<forall>f\<in>set fileList'. statusOf ctx f = Unknown \<longrightarrow>
            \<not> spec_outranks (spec_rankKey meta f) (spec_rankKey meta v)"
    by blast
  have "v = w"
  proof (rule ccontr)
    assume neq: "v \<noteq> w"
    have vin: "v \<in> set fileList" using v same by simp
    have win: "w \<in> set fileList'" using w same by simp
    have "spec_rankKey meta v \<noteq> spec_rankKey meta w"
      using inj vin w v neq by blast
    from outranks_total[OF this] show False
      using tw vin v(2) tv win w(2) by blast
  qed
  then show ?thesis using lw lv same by simp
qed

text \<open>
  Claim C4, as the code has it. In exhaustive mode one call of \<open>autoSelectBestMCQ\<close> on a
  file list with at least one file of unknown status selects exactly one of the unknown
  files as keep and sets every other unknown file to discard. No unknown file of the list
  outranks the selected one under the key (year flag descending, file number ascending)
  of the metadata, and the selected file outranks every unknown file that stands before
  it in the list: among files with the same key the first of the list is kept. Metadata
  that gives the unknown files of the list the same keys gives the same selections. The
  same files in another order give the same selections when no two unknown files share a
  key; with a shared key the order of the list decides.
\<close>

theorem exhaustive_selects_top_ranked:
  "(filter (\<lambda>f. statusOf ctx f = Unknown) fileList \<noteq> [] \<longrightarrow>
     (\<exists>w\<in>set fileList. statusOf ctx w = Unknown \<and>
        map_of (autoSelectBestMCQ ctx fileList meta False) w = Some True \<and>
        (\<forall>f\<in>set fileList. statusOf ctx f = Unknown \<and> f \<noteq> w \<longrightarrow>
            map_of (autoSelectBestMCQ ctx fileList meta False) f = Some False) \<and>
        (\<forall>f\<in>set fileList. statusOf ctx f = Unknown \<longrightarrow>
            \<not> spec_outranks (spec_rankKey meta f) (spec_rankKey meta w)) \<and>
        (\<forall>f\<in>set (takeWhile (\<lambda>f. f \<noteq> w) (filter (\<lambda>f. statusOf ctx f = Unknown) fileList)).
            spec_outranks (spec_rankKey meta w) (spec_rankKey meta f)))) \<and>
   ((\<forall>f\<in>set fileList. statusOf ctx f = Unknown \<longrightarrow> spec_rankKey meta' f = spec_rankKey meta f) \<longrightarrow>
      autoSelectBestMCQ ctx fileList meta' False = autoSelectBestMCQ ctx fileList meta False) \<and>
   (set fileList' = set fileList \<and>
    (\<forall>f\<in>set fileList. \<forall>g\<in>set fileList.
        statusOf ctx f = Unknown \<and> statusOf ctx g = Unknown \<and> f \<noteq> g \<longrightarrow>
        spec_rankKey meta f \<noteq> spec_rankKey meta g) \<longrightarrow>
      (\<forall>f. map_of (autoSelectBestMCQ ctx fileList' meta False) f =
           map_of (autoSelectBestMCQ ctx fileList meta False) f))"
proof (intro conjI impI)
  assume ne: "filter (\<lambda>f. statusOf ctx f = Unknown) fileList \<noteq> []"
  from exhaustive_winner[OF ne, of meta] obtain w where
    w: "w \<in> set fileList" "statusOf ctx w = Unknown"
    and lw: "\<forall>f. map_of (autoSelectBestMCQ ctx fileList meta False) f =
           (if f = w then Some True
            else if f \<in> set fileList then Some (statusOf ctx f = Saved) else None)"
    and tw: "\<forall>f\<in>set fileList. statusOf ctx f = Unknown \<longrightarrow>
            \<not> spec_outranks (spec_rankKey meta f) (spec_rankKey meta w)"
    and fw: "\<forall>f\<in>set (takeWhile (\<lambda>f. f \<noteq> w) (filter (\<lambda>f. statusOf ctx f = Unknown) fileList)).
            spec_outranks (spec_rankKey meta w) (spec_rankKey meta f)"
    by blast
  have a: "map_of (autoSelectBestMCQ ctx fileList meta False) w = Some True"
    by (simp add: lw)
  have b: "\<forall>f\<in>set fileList. statusOf ctx f = Unknown \<and> f \<noteq> w \<longrightarrow>
            map_of (autoSelectBestMCQ ctx fileList meta False) f = Some False"
    by (simp add: lw)
  show "\<exists>w\<in>set fileList. statusOf ctx w = Unknown \<and>
        map_of (autoSelectBestMCQ ctx fileList meta False) w = Some True \<and>
        (\<forall>f\<in>set fileList. statusOf ctx f = Unknown \<and> f \<noteq> w \<longrightarrow>
            map_of (autoSelectBestMCQ ctx fileList meta False) f = Some False) \<and>
        (\<forall>f\<in>set fileList. statusOf ctx f = Unknown \<longrightarrow>
            \<not> spec_outranks (spec_rankKey meta f) (spec_rankKey meta w)) \<and>
        (\<forall>f\<in>set (takeWhile (\<lambda>f. f \<noteq> w) (filter (\<lambda>f. statusOf ctx f = Unknown) fileList)).
            spec_outranks (spec_rankKey meta w) (spec_rankKey meta f))"
    using w a b tw fw by blast
next
  assume "\<forall>f\<in>set fileList. statusOf ctx f = Unknown \<longrightarrow> spec_rankKey meta' f = spec_rankKey meta f"
  then have "\<forall>f\<in>set fileList. statusOf ctx f = Unknown \<longrightarrow> unknownEntry meta' f = unknownEntry meta f"
    using unknownEntry_key by blast
  then show "autoSelectBestMCQ ctx fileList meta' False = autoSelectBestMCQ ctx fileList meta False"
    by (rule autoSelect_meta_cong)
next
  assume h: "set fileList' = set fileList \<and>
    (\<forall>f\<in>set fileList. \<forall>g\<in>set fileList.
        statusOf ctx f = Unknown \<and> statusOf ctx g = Unknown \<and> f \<noteq> g \<longrightarrow>
        spec_rankKey meta f \<noteq> spec_rankKey meta g)"
  show "\<forall>f. map_of (autoSelectBestMCQ ctx fileList' meta False) f =
           map_of (autoSelectBestMCQ ctx fileList meta False) f"
    using exhaustive_order_free[of fileList' fileList ctx meta] h by blast
qed

theorem exhaustive_selects_top_ranked_witness:
  "map_of (autoSelectBestMCQ Map.empty [''B'', ''A''] scenarioMeta False) ''A'' = Some True \<and>
   map_of (autoSelectBestMCQ Map.empty [''B'', ''A''] scenarioMeta False) ''B'' = Some False \<and>
   map_of (autoSelectBestMCQ Map.empty [''A'', ''B''] scenarioMeta False) ''A'' = Some True \<and>
   autoSelectBestMCQ Map.empty [''B'', ''A''] (scenarioMeta(''Z'' \<mapsto> \<lparr>hasYear = True, fileNum = 1\<rparr>)) False =
     autoSelectBestMCQ Map.empty [''B'', ''A''] scenarioMeta False"
proof -
  let ?sel = "autoSelectBestMCQ Map.empty [''B'', ''A''] scenarioMeta False"
  let ?meta' = "scenarioMeta(''Z'' \<mapsto> \<lparr>hasYear = True, fileNum = 1\<rparr>)"
  have unk: "filter (\<lambda>f. statusOf Map.empty f = Unknown) [''B'', ''A''] \<noteq> []"
    by (simp add: statusOf_def)
  have keyA: "spec_rankKey scenarioMeta ''A'' = (True, 5)" and keyB: "spec_rankKey scenarioMeta ''B'' = (False, 1)"
    by (simp_all add: spec_rankKey_def scenarioMeta_def)
  have same: "\<forall>f\<in>set [''B'', ''A'']. statusOf Map.empty f = Unknown \<longrightarrow>
      spec_rankKey ?meta' f = spec_rankKey scenarioMeta f"
    by (simp add: spec_rankKey_def scenarioMeta_def)
  have AB: "spec_outranks (spec_rankKey scenarioMeta ''A'') (spec_rankKey scenarioMeta ''B'')"
    by (simp add: keyA keyB spec_outranks_def)
  have distinct: "\<forall>f\<in>set [''B'', ''A'']. \<forall>g\<in>set [''B'', ''A''].
        statusOf Map.empty f = Unknown \<and> statusOf Map.empty g = Unknown \<and> f \<noteq> g \<longrightarrow>
        spec_rankKey scenarioMeta f \<noteq> spec_rankKey scenarioMeta g"
    by (simp add: keyA keyB)
  have sets: "set [''A'', ''B''] = set [''B'', ''A'']" by auto
  note inst = exhaustive_selects_top_ranked[where ctx = Map.empty and fileList = "[''B'', ''A'']"
      and meta = scenarioMeta and meta' = ?meta' and fileList' = "[''A'', ''B'']"]
  from inst unk obtain w where w: "w \<in> set [''B'', ''A'']"
    and keep: "map_of ?sel w = Some True"
    and rest: "\<forall>f\<in>set [''B'', ''A'']. statusOf Map.empty f = Unknown \<and> f \<noteq> w \<longrightarrow> map_of ?sel f = Some False"
    and top: "\<forall>f\<in>set [''B'', ''A'']. statusOf Map.empty f = Unknown \<longrightarrow>
                \<not> spec_outranks (spec_rankKey scenarioMeta f) (spec_rankKey scenarioMeta w)"
    by blast
  have "w = ''A''"
  proof (rule ccontr)
    assume "w \<noteq> ''A''"
    then have "w = ''B''" using w by simp
    moreover have "statusOf Map.empty ''A'' = Unknown" by (simp add: statusOf_def)
    ultimately show False using top AB by simp
  qed
  then have k: "map_of ?sel ''A'' = Some True" "map_of ?sel ''B'' = Some False"
    using keep rest by (auto simp: statusOf_def)
  have "\<forall>f. map_of (autoSelectBestMCQ Map.empty [''A'', ''B''] scenarioMeta False) f = map_of ?sel f"
    using inst sets distinct by blast
  then have o: "map_of (autoSelectBestMCQ Map.empty [''A'', ''B''] scenarioMeta False) ''A'' = Some True"
    using k by simp
  have "autoSelectBestMCQ Map.empty [''B'', ''A''] ?meta' False = ?sel"
    using inst same by blast
  then show ?thesis using k o by simp
qed

theorem exhaustive_tie_counterexample:
  "spec_rankKey scenarioTie ''a7.json'' = spec_rankKey scenarioTie ''b7.json'' \<and>
   set [''a7.json'', ''b7.json''] = set [''b7.json'', ''a7.json''] \<and>
   map_of (autoSelectBestMCQ Map.empty [''a7.json'', ''b7.json''] scenarioTie False) ''a7.json'' = Some True \<and>
   map_of (autoSelectBestMCQ Map.empty [''a7.json'', ''b7.json''] scenarioTie False) ''b7.json'' = Some False \<and>
   map_of (autoSelectBestMCQ Map.empty [''b7.json'', ''a7.json''] scenarioTie False) ''a7.json'' = Some False \<and>
   map_of (autoSelectBestMCQ Map.empty [''b7.json'', ''a7.json''] scenarioTie False) ''b7.json'' = Some True"
proof -
  have "set [''a7.json'', ''b7.json''] = set [''b7.json'', ''a7.json'']" by auto
  moreover have "spec_rankKey scenarioTie ''a7.json'' = spec_rankKey scenarioTie ''b7.json''"
    by (simp add: spec_rankKey_def scenarioTie_def)
  moreover have
    "map_of (autoSelectBestMCQ Map.empty [''a7.json'', ''b7.json''] scenarioTie False) ''a7.json'' = Some True"
    "map_of (autoSelectBestMCQ Map.empty [''a7.json'', ''b7.json''] scenarioTie False) ''b7.json'' = Some False"
    "map_of (autoSelectBestMCQ Map.empty [''b7.json'', ''a7.json''] scenarioTie False) ''a7.json'' = Some False"
    "map_of (autoSelectBestMCQ Map.empty [''b7.json'', ''a7.json''] scenarioTie False) ''b7.json'' = Some True"
    unfolding scenarioTie_def by code_simp+
  ultimately show ?thesis by blast
qed

section \<open>Recomputation and the authority of the status\<close>

lemma checkAll_fold_lookup:
  "map_of (fold (\<lambda>filename sel. AList.update filename (statusOf ctx filename \<noteq> Removed) sel) fileList acc) f =
     (if f \<in> set fileList then Some (statusOf ctx f \<noteq> Removed) else map_of acc f)"
  by (induction fileList arbitrary: acc) (auto simp: update_conv')

lemma hd_sortBy_mem: "xs \<noteq> [] \<Longrightarrow> hd (sortBy cmp xs) \<in> set xs"
  using hd_in_set[of "sortBy cmp xs"] by simp

lemma autoSelect_status_lookup:
  assumes "f \<in> set fileList" and "statusOf ctx f \<noteq> Unknown"
  shows "map_of (autoSelectBestMCQ ctx fileList meta useCheckAllMode) f = Some (statusOf ctx f = Saved)"
proof (cases useCheckAllMode)
  case True
  then show ?thesis
    using assms by (cases "statusOf ctx f") (auto simp: autoSelectBestMCQ_def checkAll_fold_lookup)
next
  case False
  let ?unk = "filter (\<lambda>f. statusOf ctx f = Unknown) fileList"
  show ?thesis
  proof (cases "?unk = []")
    case True
    then show ?thesis
      using assms False
      by (auto simp: autoSelectBestMCQ_def Let_def classify_fold_snd classify_fold_fst)
  next
    case ne: False
    let ?w = "hd (sortBy compareUnknown (map (unknownEntry meta) ?unk))"
    have "?w \<in> set (map (unknownEntry meta) ?unk)"
      using ne by (intro hd_sortBy_mem) simp
    then have "uFilename ?w \<in> set ?unk" by auto
    then have "statusOf ctx (uFilename ?w) = Unknown" by simp
    then have "f \<noteq> uFilename ?w" using assms(2) by auto
    then show ?thesis
      using False assms autoSelect_exhaustive_lookup[OF ne, of meta f] by simp
  qed
qed

lemma mergeSelection_lookup:
  "map_of (mergeSelection ctx gs a merged) f =
     (if f = a then
        (if statusOf ctx a \<noteq> Unknown then Some (case map_of gs a of None \<Rightarrow> False | Some b \<Rightarrow> b)
         else (case map_of merged a of
                 None \<Rightarrow> Some (case map_of gs a of None \<Rightarrow> False | Some b \<Rightarrow> b)
               | Some b \<Rightarrow> Some b))
      else map_of merged f)"
  by (cases "statusOf ctx a") (auto simp: mergeSelection_def Let_def update_conv' split: option.splits)

lemma merge_fold_lookup:
  "map_of (fold (mergeSelection ctx gs) fs merged) f =
     (if f \<in> set fs then
        (if statusOf ctx f \<noteq> Unknown then Some (case map_of gs f of None \<Rightarrow> False | Some b \<Rightarrow> b)
         else (case map_of merged f of
                 None \<Rightarrow> Some (case map_of gs f of None \<Rightarrow> False | Some b \<Rightarrow> b)
               | Some b \<Rightarrow> Some b))
      else map_of merged f)"
proof (induction fs arbitrary: merged)
  case Nil
  then show ?case by simp
next
  case (Cons a fs)
  show ?case
    by (simp add: Cons.IH mergeSelection_lookup split: option.splits)
qed

lemma recomputeGroup_other:
  "g' \<noteq> g \<Longrightarrow> recomputeGroup ctx meta mode um groups g updated g' = updated g'"
  by (simp add: recomputeGroup_def Let_def)

lemma recomputeGroup_same:
  "u g = prev g \<Longrightarrow>
     recomputeGroup ctx meta mode um groups g u g = recomputeGroup ctx meta mode um groups g prev g"
  by (simp add: recomputeGroup_def Let_def)

lemma recomputeSelections_upto:
  "fold (recomputeGroup ctx meta mode um groups) [0..<n] prev g =
     (if g < n then recomputeGroup ctx meta mode um groups g prev g else prev g)"
proof (induction n arbitrary: g)
  case 0
  then show ?case by simp
next
  case (Suc n)
  let ?u = "fold (recomputeGroup ctx meta mode um groups) [0..<n] prev"
  have step: "fold (recomputeGroup ctx meta mode um groups) [0..<Suc n] prev =
              recomputeGroup ctx meta mode um groups n ?u"
    by simp
  show ?case
  proof (cases "g = n")
    case True
    have "?u n = prev n" using Suc.IH[of n] by simp
    then have "recomputeGroup ctx meta mode um groups n ?u n = recomputeGroup ctx meta mode um groups n prev n"
      by (rule recomputeGroup_same)
    then show ?thesis unfolding step using True by simp
  next
    case False
    have "recomputeGroup ctx meta mode um groups n ?u g = ?u g"
      using False by (rule recomputeGroup_other)
    then show ?thesis unfolding step using False Suc.IH[of g] by (simp add: less_Suc_eq)
  qed
qed

lemma recomputeGroup_lookup:
  "selectionOf (recomputeGroup ctx meta mode um groups g prev) g f =
     (if f \<in> set (files (groups ! g)) \<and> f \<notin> um then
        (if statusOf ctx f \<noteq> Unknown then Some (statusOf ctx f = Saved)
         else (case selectionOf prev g f of
                 None \<Rightarrow> Some (case map_of (autoSelectBestMCQ ctx (filter (\<lambda>f. f \<notin> um) (files (groups ! g))) meta mode) f of
                                 None \<Rightarrow> False | Some b \<Rightarrow> b)
               | Some b \<Rightarrow> Some b))
      else selectionOf prev g f)"
proof -
  let ?fs = "filter (\<lambda>f. f \<notin> um) (files (groups ! g))"
  let ?ex = "case prev g of None \<Rightarrow> [] | Some sel \<Rightarrow> sel"
  have ex: "map_of ?ex f = selectionOf prev g f"
    by (simp add: selectionOf_def split: option.splits)
  show ?thesis
  proof (cases "?fs = []")
    case True
    then have "f \<notin> set ?fs" by simp
    then have nf: "\<not> (f \<in> set (files (groups ! g)) \<and> f \<notin> um)" by simp
    have "selectionOf (recomputeGroup ctx meta mode um groups g prev) g f = map_of ?ex f"
      using True by (simp add: recomputeGroup_def selectionOf_def Let_def)
    then show ?thesis using nf ex by auto
  next
    case False
    have look: "selectionOf (recomputeGroup ctx meta mode um groups g prev) g f =
        map_of (fold (mergeSelection ctx (autoSelectBestMCQ ctx ?fs meta mode)) ?fs ?ex) f"
      using False by (simp add: recomputeGroup_def selectionOf_def Let_def)
    show ?thesis
    proof (cases "f \<in> set ?fs")
      case True
      show ?thesis
      proof (cases "statusOf ctx f = Unknown")
        case u: True
        then show ?thesis using True unfolding look merge_fold_lookup ex by simp
      next
        case nu: False
        have "map_of (autoSelectBestMCQ ctx ?fs meta mode) f = Some (statusOf ctx f = Saved)"
          using True nu by (rule autoSelect_status_lookup)
        then show ?thesis using True nu unfolding look merge_fold_lookup ex by simp
      qed
    next
      case False
      then show ?thesis unfolding look merge_fold_lookup ex by auto
    qed
  qed
qed

lemma recomputeSelections_lookup:
  assumes "g < length groups"
  shows "selectionOf (recomputeSelections ctx meta mode um groups prev) g f =
           selectionOf (recomputeGroup ctx meta mode um groups g prev) g f"
  using assms by (simp add: recomputeSelections_def selectionOf_def recomputeSelections_upto)

lemma recomputeSelections_outside:
  assumes "\<not> g < length groups"
  shows "recomputeSelections ctx meta mode um groups prev g = prev g"
  using assms by (simp add: recomputeSelections_def recomputeSelections_upto)

lemma recompute_keeps_userModified:
  assumes "f \<in> um"
  shows "selectionOf (recomputeSelections ctx meta mode um groups prev) g f = selectionOf prev g f"
proof (cases "g < length groups")
  case True
  then show ?thesis using assms by (simp add: recomputeSelections_lookup recomputeGroup_lookup)
next
  case False
  then show ?thesis by (simp add: selectionOf_def recomputeSelections_outside)
qed

lemma recompute_status_authority:
  assumes "g < length groups" "f \<in> set (files (groups ! g))" "f \<notin> um" "statusOf ctx f \<noteq> Unknown"
  shows "selectionOf (recomputeSelections ctx meta mode um groups prev) g f = Some (statusOf ctx f = Saved)"
  using assms by (simp add: recomputeSelections_lookup recomputeGroup_lookup)

section \<open>Toggling a record\<close>

lemma toggleGroup_keeps_defined:
  assumes "\<forall>g. u g = None \<longrightarrow> prev g = None"
  shows "\<forall>g'. toggleGroup groups f v prev g u g' = None \<longrightarrow> prev g' = None"
  using assms by (auto simp: toggleGroup_def Let_def split: option.splits)

lemma toggleGroup_other_file:
  assumes "f' \<noteq> f" and "\<forall>g. u g = None \<longrightarrow> prev g = None"
  shows "selectionOf (toggleGroup groups f v prev g u) g' f' = selectionOf u g' f'"
proof (cases "g' = g \<and> g < length groups \<and> f \<in> set (files (groups ! g))")
  case False
  then show ?thesis by (auto simp: toggleGroup_def groupAt_def Let_def selectionOf_def)
next
  case True
  show ?thesis
  proof (cases "u g")
    case None
    then have "prev g = None" using assms(2) by simp
    then show ?thesis using True None assms(1)
      by (simp add: toggleGroup_def groupAt_def Let_def selectionOf_def update_conv')
  next
    case (Some sel)
    then show ?thesis using True assms(1)
      by (simp add: toggleGroup_def groupAt_def Let_def selectionOf_def update_conv')
  qed
qed

lemma toggleGroup_same_file:
  "selectionOf (toggleGroup groups f v prev g u) g' f =
     (if g' = g \<and> g < length groups \<and> f \<in> set (files (groups ! g)) then Some v
      else selectionOf u g' f)"
  by (auto simp: toggleGroup_def groupAt_def Let_def selectionOf_def update_conv')

lemma toggle_fold_other_file:
  assumes "f' \<noteq> f" and "\<forall>g. u g = None \<longrightarrow> prev g = None"
  shows "selectionOf (fold (toggleGroup groups f v prev) page u) g' f' = selectionOf u g' f'"
  using assms(2)
proof (induction page arbitrary: u)
  case Nil
  then show ?case by simp
next
  case (Cons g page)
  have J: "\<forall>g'. toggleGroup groups f v prev g u g' = None \<longrightarrow> prev g' = None"
    using Cons.prems by (rule toggleGroup_keeps_defined)
  show ?case
    using Cons.IH[OF J] toggleGroup_other_file[OF assms(1) Cons.prems] by simp
qed

lemma toggle_fold_same_file:
  "selectionOf (fold (toggleGroup groups f v prev) page u) g' f =
     (if g' \<in> set page \<and> g' < length groups \<and> f \<in> set (files (groups ! g')) then Some v
      else selectionOf u g' f)"
proof (induction page arbitrary: u)
  case Nil
  then show ?case by simp
next
  case (Cons g page)
  show ?case
    by (auto simp: Cons.IH toggleGroup_same_file)
qed

lemma updateCheckedFiles_stored:
  assumes "loadSession subj store = Some s"
  shows "loadSession subj (updateCheckedFiles now subj f v store) =
           Some (s\<lparr>checkedFiles := AList.update f v (checkedFiles s), lastUpdated := now\<rparr>)"
proof -
  have "subject s = subj" using assms by (auto simp: loadSession_def split: option.splits if_splits)
  then show ?thesis using assms by (simp add: updateCheckedFiles_def saveSession_def loadSession_def)
qed

lemma updateCheckedFiles_absent:
  assumes "loadSession subj store = None"
  shows "updateCheckedFiles now subj f v store = store"
  using assms by (simp add: updateCheckedFiles_def)

text \<open>
  Claim C3, as the code has it. The exemption is membership in the set of user-modified
  records that the component keeps from one initialisation of the groups to the next: a
  record enters it when the user toggles it on any page, and a change of range does not
  empty it. Once the component has initialised, the recomputation of the selections, in
  either heuristic mode, from any earlier selections and with any file statuses (so also
  after a status refresh), selects every record of the current page that is not in this
  set in every group containing it when its status is saved, and unselects it in every
  such group when its status is removed. A record in the set keeps, in every group, the
  selection it had. While the component initialises, the effect leaves the selections as
  they are. A toggle of one record leaves the selections of all records that are still
  outside the set as they were.
\<close>

theorem status_authority:
  "(\<forall>g\<in>set (getGroupsForCurrentPage groups rangeStart rangeEnd).
      \<forall>f\<in>set (files (groups ! g)). f \<notin> um \<longrightarrow>
        (statusOf ctx f = Saved \<longrightarrow>
           selectionOf (recomputeEffect False ctx meta mode um groups prev) g f = Some True) \<and>
        (statusOf ctx f = Removed \<longrightarrow>
           selectionOf (recomputeEffect False ctx meta mode um groups prev) g f = Some False)) \<and>
   (\<forall>g f. f \<in> um \<longrightarrow>
      selectionOf (recomputeEffect initializing ctx meta mode um groups prev) g f = selectionOf prev g f) \<and>
   recomputeEffect True ctx meta mode um groups prev = prev \<and>
   (\<forall>g f. f \<notin> userModifiedFiles (handleFileToggleAll now subj groups rangeStart rangeEnd x v st) \<longrightarrow>
      selectionOf (autoSelections (handleFileToggleAll now subj groups rangeStart rangeEnd x v st)) g f =
      selectionOf (autoSelections st) g f)"
proof -
  have a: "\<forall>g\<in>set (getGroupsForCurrentPage groups rangeStart rangeEnd).
      \<forall>f\<in>set (files (groups ! g)). f \<notin> um \<longrightarrow>
        (statusOf ctx f = Saved \<longrightarrow>
           selectionOf (recomputeEffect False ctx meta mode um groups prev) g f = Some True) \<and>
        (statusOf ctx f = Removed \<longrightarrow>
           selectionOf (recomputeEffect False ctx meta mode um groups prev) g f = Some False)"
  proof (intro ballI impI)
    fix g f
    assume g: "g \<in> set (getGroupsForCurrentPage groups rangeStart rangeEnd)"
      and f: "f \<in> set (files (groups ! g))" and um: "f \<notin> um"
    have valid: "g < length groups"
      using g by (simp add: getGroupsForCurrentPage_def set_calculateGroupsInRange)
    then have eff: "recomputeEffect False ctx meta mode um groups prev =
        recomputeSelections ctx meta mode um groups prev"
      by (auto simp: recomputeEffect_def)
    show "(statusOf ctx f = Saved \<longrightarrow>
           selectionOf (recomputeEffect False ctx meta mode um groups prev) g f = Some True) \<and>
        (statusOf ctx f = Removed \<longrightarrow>
           selectionOf (recomputeEffect False ctx meta mode um groups prev) g f = Some False)"
      unfolding eff
      using recompute_status_authority[OF valid f um, of ctx meta mode prev] by simp
  qed
  have b: "\<forall>g f. f \<in> um \<longrightarrow>
      selectionOf (recomputeEffect initializing ctx meta mode um groups prev) g f = selectionOf prev g f"
    by (simp add: recomputeEffect_def recompute_keeps_userModified)
  have c: "recomputeEffect True ctx meta mode um groups prev = prev"
    by (simp add: recomputeEffect_def)
  have d: "\<forall>g f. f \<notin> userModifiedFiles (handleFileToggleAll now subj groups rangeStart rangeEnd x v st) \<longrightarrow>
      selectionOf (autoSelections (handleFileToggleAll now subj groups rangeStart rangeEnd x v st)) g f =
      selectionOf (autoSelections st) g f"
  proof (intro allI impI)
    fix g f
    assume "f \<notin> userModifiedFiles (handleFileToggleAll now subj groups rangeStart rangeEnd x v st)"
    then have ne: "f \<noteq> x" by (auto simp: handleFileToggleAll_def)
    have "selectionOf (fold (toggleGroup groups x v (autoSelections st))
            (getGroupsForCurrentPage groups rangeStart rangeEnd) (autoSelections st)) g f =
          selectionOf (autoSelections st) g f"
      by (rule toggle_fold_other_file[OF ne]) simp
    then show "selectionOf (autoSelections (handleFileToggleAll now subj groups rangeStart rangeEnd x v st)) g f =
        selectionOf (autoSelections st) g f"
      by (simp add: handleFileToggleAll_def)
  qed
  show ?thesis using a b c d by blast
qed

theorem status_authority_witness:
  "selectionOf (recomputeEffect False scenarioStatuses scenarioMeta False {} scenarioGroups Map.empty) 0 ''A'' = Some True \<and>
   selectionOf (recomputeEffect False scenarioStatuses scenarioMeta True {} scenarioGroups Map.empty) 1 ''B'' = Some False \<and>
   selectionOf (recomputeEffect False scenarioStatuses scenarioMeta False {''B''} scenarioGroups
       [1 \<mapsto> [(''B'', True)]]) 1 ''B'' = Some True \<and>
   selectionOf (autoSelections (handleFileToggleAll 1 ''physics'' scenarioGroups (999 / 10) (998 / 10) ''C'' False
       \<lparr>autoSelections = [0 \<mapsto> [(''A'', True), (''B'', False)]], userModifiedFiles = {}, localStore = None\<rparr>)) 0 ''A''
     = Some True"
proof -
  have page: "getGroupsForCurrentPage scenarioGroups (999 / 10) (998 / 10) = [0, 1]"
    unfolding scenarioGroups_def by code_simp
  have fA: "''A'' \<in> set (files (scenarioGroups ! 0))" and fB: "''B'' \<in> set (files (scenarioGroups ! 1))"
    by (simp_all add: scenarioGroups_def)
  have sA: "statusOf scenarioStatuses ''A'' = Saved" and sB: "statusOf scenarioStatuses ''B'' = Removed"
    by (simp_all add: statusOf_def scenarioStatuses_def)
  have a: "selectionOf (recomputeEffect False scenarioStatuses scenarioMeta False {} scenarioGroups Map.empty) 0 ''A'' = Some True"
    using status_authority[where groups = scenarioGroups and rangeStart = "999 / 10" and rangeEnd = "998 / 10"
        and um = "{}" and ctx = scenarioStatuses and meta = scenarioMeta and mode = False and prev = Map.empty]
      page fA sA by simp
  have b: "selectionOf (recomputeEffect False scenarioStatuses scenarioMeta True {} scenarioGroups Map.empty) 1 ''B'' = Some False"
    using status_authority[where groups = scenarioGroups and rangeStart = "999 / 10" and rangeEnd = "998 / 10"
        and um = "{}" and ctx = scenarioStatuses and meta = scenarioMeta and mode = True and prev = Map.empty]
      page fB sB by simp
  have "selectionOf (recomputeEffect False scenarioStatuses scenarioMeta False {''B''} scenarioGroups
       [1 \<mapsto> [(''B'', True)]]) 1 ''B'' = selectionOf [1 \<mapsto> [(''B'', True)]] 1 ''B''"
    using status_authority[where um = "{''B''}" and initializing = False and ctx = scenarioStatuses
        and meta = scenarioMeta and mode = False and groups = scenarioGroups and prev = "[1 \<mapsto> [(''B'', True)]]"]
    by blast
  then have e: "selectionOf (recomputeEffect False scenarioStatuses scenarioMeta False {''B''} scenarioGroups
       [1 \<mapsto> [(''B'', True)]]) 1 ''B'' = Some True"
    by (simp add: selectionOf_def)
  let ?st = "\<lparr>autoSelections = [0 \<mapsto> [(''A'', True), (''B'', False)]], userModifiedFiles = {}, localStore = None\<rparr>"
  have notmod: "''A'' \<notin> userModifiedFiles (handleFileToggleAll 1 ''physics'' scenarioGroups (999 / 10) (998 / 10) ''C'' False ?st)"
    by (simp add: handleFileToggleAll_def)
  have c: "selectionOf (autoSelections (handleFileToggleAll 1 ''physics'' scenarioGroups (999 / 10) (998 / 10) ''C'' False ?st)) 0 ''A''
      = selectionOf (autoSelections ?st) 0 ''A''"
    using status_authority[where groups = scenarioGroups and rangeStart = "999 / 10" and rangeEnd = "998 / 10"
        and now = 1 and subj = "''physics''" and x = "''C''" and v = False and st = ?st] notmod
    by blast
  have d: "selectionOf (autoSelections ?st) 0 ''A'' = Some True"
    by (simp add: selectionOf_def)
  show ?thesis using a b c d e by simp
qed

theorem status_authority_cross_page_counterexample:
  "getGroupsForCurrentPage crossGroups (999 / 10) (999 / 10) = [0] \<and>
   getGroupsForCurrentPage crossGroups 95 95 = [1] \<and>
   ''R'' \<in> set (files (crossGroups ! 1)) \<and>
   userModifiedFiles crossAfterToggle = {''R''} \<and>
   statusOf crossStatuses ''R'' = Saved \<and>
   selectionOf crossAfterSubmit 1 ''R'' = Some False \<and>
   fileFinalStates crossGroups crossAfterSubmit (getGroupsForCurrentPage crossGroups 95 95) =
     Some [(''R'', False), (''Y'', True)]"
proof -
  have "getGroupsForCurrentPage crossGroups (999 / 10) (999 / 10) = [0]"
    unfolding crossGroups_def by code_simp
  moreover have "getGroupsForCurrentPage crossGroups 95 95 = [1]"
    unfolding crossGroups_def by code_simp
  moreover have "''R'' \<in> set (files (crossGroups ! 1))"
    by (simp add: crossGroups_def)
  moreover have "userModifiedFiles crossAfterToggle = {''R''}"
    by (simp add: crossAfterToggle_def handleFileToggleAll_def)
  moreover have "statusOf crossStatuses ''R'' = Saved"
    unfolding crossStatuses_def crossAfterToggle_def crossGroups_def crossMeta_def by code_simp
  moreover have "selectionOf crossAfterSubmit 1 ''R'' = Some False"
    unfolding crossAfterSubmit_def crossStatuses_def crossAfterToggle_def crossGroups_def crossMeta_def
    by code_simp
  moreover have "fileFinalStates crossGroups crossAfterSubmit (getGroupsForCurrentPage crossGroups 95 95) =
     Some [(''R'', False), (''Y'', True)]"
    unfolding crossAfterSubmit_def crossStatuses_def crossAfterToggle_def crossGroups_def crossMeta_def
    by code_simp
  ultimately show ?thesis by blast
qed

text \<open>
  Claim C5. After the user toggles record R to value V, R's selection is V in every group
  on the current page that contains R, R is in the set of user-modified files, and a
  recomputation of the selections, in either mode and with any statuses and metadata,
  leaves R at V in those groups. The override is written to the session stored for the
  subject: when local storage holds a session for the subject, the stored session
  afterwards has R at V among its checked files; the effect that saves the range, which
  runs when the component mounts, leaves such a session in storage.
\<close>

theorem toggle_propagates:
  "let st' = handleFileToggleAll now subj groups rangeStart rangeEnd R V st in
     (\<forall>g\<in>set (getGroupsForCurrentPage groups rangeStart rangeEnd).
         R \<in> set (files (groups ! g)) \<longrightarrow> selectionOf (autoSelections st') g R = Some V) \<and>
     R \<in> userModifiedFiles st' \<and>
     (\<forall>ctx meta mode. \<forall>g\<in>set (getGroupsForCurrentPage groups rangeStart rangeEnd).
         R \<in> set (files (groups ! g)) \<longrightarrow>
         selectionOf (recomputeSelections ctx meta mode (userModifiedFiles st') groups (autoSelections st')) g R
           = Some V) \<and>
     (\<forall>s. loadSession subj (localStore st) = Some s \<longrightarrow>
        (\<exists>s'. loadSession subj (localStore st') = Some s' \<and> map_of (checkedFiles s') R = Some V)) \<and>
     (\<forall>t0 rs0 re0 target manual store0.
        localStore st = saveRangeEffect t0 subj rs0 re0 target manual store0 \<longrightarrow>
        (\<exists>s'. loadSession subj (localStore st') = Some s' \<and> map_of (checkedFiles s') R = Some V))"
proof -
  let ?page = "getGroupsForCurrentPage groups rangeStart rangeEnd"
  let ?st' = "handleFileToggleAll now subj groups rangeStart rangeEnd R V st"
  have valid: "\<And>g. g \<in> set ?page \<Longrightarrow> g < length groups"
    by (simp add: getGroupsForCurrentPage_def set_calculateGroupsInRange)
  have sel: "selectionOf (autoSelections ?st') g R = Some V"
    if "g \<in> set ?page" "R \<in> set (files (groups ! g))" for g
    using that valid[OF that(1)] by (simp add: handleFileToggleAll_def toggle_fold_same_file)
  have um: "R \<in> userModifiedFiles ?st'" by (simp add: handleFileToggleAll_def)
  have keep: "selectionOf (recomputeSelections ctx meta mode (userModifiedFiles ?st') groups (autoSelections ?st')) g R = Some V"
    if "g \<in> set ?page" "R \<in> set (files (groups ! g))" for ctx meta mode g
    using recompute_keeps_userModified[OF um] sel[OF that] by simp
  have store: "\<exists>s'. loadSession subj (localStore ?st') = Some s' \<and> map_of (checkedFiles s') R = Some V"
    if "loadSession subj (localStore st) = Some s" for s
    using updateCheckedFiles_stored[OF that, of now R V]
    by (simp add: handleFileToggleAll_def update_conv')
  have mounted: "\<exists>s'. loadSession subj (localStore ?st') = Some s' \<and> map_of (checkedFiles s') R = Some V"
    if "localStore st = saveRangeEffect t0 subj rs0 re0 target manual store0"
    for t0 rs0 re0 target manual store0
  proof -
    have "\<exists>s. loadSession subj (localStore st) = Some s"
      unfolding that
      by (auto simp: saveRangeEffect_def saveSession_def loadSession_def freshSession_def Let_def
               split: option.splits if_splits)
    then show ?thesis using store by blast
  qed
  show ?thesis unfolding Let_def using sel um keep store mounted by blast
qed

theorem toggle_propagates_witness:
  "selectionOf (autoSelections (handleFileToggleAll 1 ''physics'' scenarioGroups (999 / 10) (998 / 10) ''B'' True
       \<lparr>autoSelections = Map.empty, userModifiedFiles = {}, localStore = Some (freshSession ''physics'' 0)\<rparr>)) 1 ''B''
     = Some True \<and>
   selectionOf (recomputeSelections scenarioStatuses scenarioMeta False
       (userModifiedFiles (handleFileToggleAll 1 ''physics'' scenarioGroups (999 / 10) (998 / 10) ''B'' True
          \<lparr>autoSelections = Map.empty, userModifiedFiles = {}, localStore = Some (freshSession ''physics'' 0)\<rparr>))
       scenarioGroups
       (autoSelections (handleFileToggleAll 1 ''physics'' scenarioGroups (999 / 10) (998 / 10) ''B'' True
          \<lparr>autoSelections = Map.empty, userModifiedFiles = {}, localStore = Some (freshSession ''physics'' 0)\<rparr>))) 1 ''B''
     = Some True \<and>
   loadSession ''physics'' (localStore (handleFileToggleAll 1 ''physics'' scenarioGroups (999 / 10) (998 / 10) ''B'' True
       \<lparr>autoSelections = Map.empty, userModifiedFiles = {}, localStore = Some (freshSession ''physics'' 0)\<rparr>))
     = Some ((freshSession ''physics'' 1)\<lparr>checkedFiles := [(''B'', True)]\<rparr>)"
proof -
  let ?st = "\<lparr>autoSelections = Map.empty, userModifiedFiles = {}, localStore = Some (freshSession ''physics'' 0)\<rparr>"
  have page: "getGroupsForCurrentPage scenarioGroups (999 / 10) (998 / 10) = [0, 1]"
    unfolding scenarioGroups_def by code_simp
  have fB: "''B'' \<in> set (files (scenarioGroups ! 1))"
    by (simp add: scenarioGroups_def)
  note inst = toggle_propagates[where now = 1 and subj = "''physics''" and groups = scenarioGroups
      and rangeStart = "999 / 10" and rangeEnd = "998 / 10" and R = "''B''" and V = True and st = ?st,
      unfolded Let_def]
  have a: "selectionOf (autoSelections (handleFileToggleAll 1 ''physics'' scenarioGroups (999 / 10) (998 / 10) ''B'' True ?st)) 1 ''B'' = Some True"
    using inst page fB by simp
  have b: "selectionOf (recomputeSelections scenarioStatuses scenarioMeta False
       (userModifiedFiles (handleFileToggleAll 1 ''physics'' scenarioGroups (999 / 10) (998 / 10) ''B'' True ?st))
       scenarioGroups
       (autoSelections (handleFileToggleAll 1 ''physics'' scenarioGroups (999 / 10) (998 / 10) ''B'' True ?st))) 1 ''B''
     = Some True"
    using inst page fB by simp
  have c: "loadSession ''physics'' (localStore (handleFileToggleAll 1 ''physics'' scenarioGroups (999 / 10) (998 / 10) ''B'' True ?st))
     = Some ((freshSession ''physics'' 1)\<lparr>checkedFiles := [(''B'', True)]\<rparr>)"
    by (simp add: handleFileToggleAll_def updateCheckedFiles_def loadSession_def saveSession_def freshSession_def)
  show ?thesis using a b c by simp
qed

section \<open>The display order is a rearrangement\<close>

lemma addGroup_inv: "placedInv st \<Longrightarrow> placedInv (addGroup g st)"
  by (auto simp: placedInv_def addGroup_def)

lemma addGroup_snd: "snd (addGroup g st) = insert g (snd st)"
  by (auto simp: addGroup_def)

lemma fold_addGroup_inv: "placedInv st \<Longrightarrow> placedInv (fold addGroup xs st)"
  by (induction xs arbitrary: st) (auto simp: addGroup_inv)

lemma fold_addGroup_snd: "snd (fold addGroup xs st) = snd st \<union> set xs"
  by (induction xs arbitrary: st) (auto simp: addGroup_snd)

lemma addRelated_subset: "set (addRelated g placed r related) \<subseteq> insert r (set related)"
  by (auto simp: addRelated_def)

lemma fold_addRelated_subset: "set (fold (addRelated g placed) rs related) \<subseteq> set related \<union> set rs"
proof (induction rs arbitrary: related)
  case Nil
  then show ?case by simp
next
  case (Cons r rs)
  have "set (fold (addRelated g placed) rs (addRelated g placed r related))
          \<subseteq> set (addRelated g placed r related) \<union> set rs"
    by (rule Cons.IH)
  then show ?case using addRelated_subset[of g placed r related] by auto
qed

lemma collectRelated_subset_aux:
  assumes "\<forall>f l. map_of ftg f = Some l \<longrightarrow> set l \<subseteq> S"
  shows "set (fold (\<lambda>filename related.
             fold (addRelated g placed)
                  (case map_of ftg filename of None \<Rightarrow> [] | Some l \<Rightarrow> l) related) fs related) \<subseteq> set related \<union> S"
proof (induction fs arbitrary: related)
  case Nil
  then show ?case by simp
next
  case (Cons f fs)
  let ?l = "case map_of ftg f of None \<Rightarrow> [] | Some l \<Rightarrow> l"
  have l: "set ?l \<subseteq> S"
  proof (cases "map_of ftg f")
    case None
    then show ?thesis by simp
  next
    case (Some l)
    then show ?thesis using assms by simp
  qed
  have "set (fold (addRelated g placed) ?l related) \<subseteq> set related \<union> S"
    using fold_addRelated_subset[of g placed ?l related] l by auto
  then show ?case using Cons.IH[of "fold (addRelated g placed) ?l related"] by auto
qed

lemma collectRelated_subset:
  assumes "\<forall>f l. map_of ftg f = Some l \<longrightarrow> set l \<subseteq> S"
  shows "set (collectRelated ftg g placed fs) \<subseteq> S"
  using collectRelated_subset_aux[OF assms, of g placed fs "[]"] by (simp add: collectRelated_def)

lemma addFileGroup_range:
  assumes "\<forall>f l. map_of ftg f = Some l \<longrightarrow> set l \<subseteq> S" and "g \<in> S"
  shows "\<forall>f l. map_of (addFileGroup g a ftg) f = Some l \<longrightarrow> set l \<subseteq> S"
proof (intro allI impI)
  fix f l
  assume look: "map_of (addFileGroup g a ftg) f = Some l"
  let ?cur = "case map_of ftg a of None \<Rightarrow> [] | Some l \<Rightarrow> l"
  have cur: "set ?cur \<subseteq> S"
  proof (cases "map_of ftg a")
    case None
    then show ?thesis by simp
  next
    case (Some l')
    then show ?thesis using assms(1) by simp
  qed
  have "map_of (addFileGroup g a ftg) f =
          (if f = a then Some (if g \<in> set ?cur then ?cur else ?cur @ [g]) else map_of ftg f)"
    by (cases "map_of ftg a") (auto simp: addFileGroup_def Let_def update_conv')
  then show "set l \<subseteq> S"
    using look cur assms by (auto split: if_splits)
qed

lemma fold_addFileGroup_range:
  assumes "\<forall>f l. map_of ftg f = Some l \<longrightarrow> set l \<subseteq> S" and "g \<in> S"
  shows "\<forall>f l. map_of (fold (addFileGroup g) fs ftg) f = Some l \<longrightarrow> set l \<subseteq> S"
  using assms(1)
proof (induction fs arbitrary: ftg)
  case Nil
  then show ?case by simp
next
  case (Cons a fs)
  have "\<forall>f l. map_of (addFileGroup g a ftg) f = Some l \<longrightarrow> set l \<subseteq> S"
    using Cons.prems assms(2) by (rule addFileGroup_range)
  from Cons.IH[OF this] show ?case by simp
qed

lemma buildFileToGroups_range_aux:
  assumes "\<forall>f l. map_of ftg f = Some l \<longrightarrow> set l \<subseteq> S" and "set gis \<subseteq> S"
  shows "\<forall>f l. map_of (fold (\<lambda>groupIndex fileToGroups.
             case groupAt groups groupIndex of
               None \<Rightarrow> fileToGroups
             | Some grp \<Rightarrow> fold (addFileGroup groupIndex) (files grp) fileToGroups) gis ftg) f = Some l
           \<longrightarrow> set l \<subseteq> S"
  using assms
proof (induction gis arbitrary: ftg)
  case Nil
  then show ?case by simp
next
  case (Cons g gis)
  let ?ftg' = "case groupAt groups g of None \<Rightarrow> ftg
               | Some grp \<Rightarrow> fold (addFileGroup g) (files grp) ftg"
  have g: "g \<in> S" and gis: "set gis \<subseteq> S" using Cons.prems(2) by auto
  have "\<forall>f l. map_of ?ftg' f = Some l \<longrightarrow> set l \<subseteq> S"
  proof (cases "groupAt groups g")
    case None
    then show ?thesis using Cons.prems(1) by simp
  next
    case (Some grp)
    then show ?thesis using fold_addFileGroup_range[OF Cons.prems(1) g, of "files grp"] by simp
  qed
  from Cons.IH[OF this gis] show ?case by simp
qed

lemma buildFileToGroups_range:
  "map_of (buildFileToGroups groups gis) f = Some l \<Longrightarrow> set l \<subseteq> set gis"
  using buildFileToGroups_range_aux[of "[]" "set gis" gis groups]
  by (simp add: buildFileToGroups_def)

lemma placeGroup_props:
  assumes inv: "placedInv st"
    and range: "\<forall>f l. map_of ftg f = Some l \<longrightarrow> set l \<subseteq> S"
    and g: "g \<in> S" and sub: "snd st \<subseteq> S"
  shows "placedInv (placeGroup groups gis ftg g st)"
    and "g \<in> snd (placeGroup groups gis ftg g st)"
    and "snd st \<subseteq> snd (placeGroup groups gis ftg g st)"
    and "snd (placeGroup groups gis ftg g st) \<subseteq> S"
proof -
  let ?st1 = "addGroup g st"
  have inv1: "placedInv ?st1" using inv by (rule addGroup_inv)
  have snd1: "snd ?st1 = insert g (snd st)" by (rule addGroup_snd)
  have rel: "\<And>fs. set (sortBy (\<lambda>a b. indexOf gis a - indexOf gis b) (collectRelated ftg g (snd ?st1) fs)) \<subseteq> S"
    using collectRelated_subset[OF range] by simp
  have full: "placedInv (fold addGroup rs ?st1) \<and> g \<in> snd (fold addGroup rs ?st1) \<and>
      snd st \<subseteq> snd (fold addGroup rs ?st1) \<and> (set rs \<subseteq> S \<longrightarrow> snd (fold addGroup rs ?st1) \<subseteq> S)" for rs
    using inv1 snd1 g sub by (auto simp: fold_addGroup_inv fold_addGroup_snd)
  have simple: "placedInv ?st1 \<and> g \<in> snd ?st1 \<and> snd st \<subseteq> snd ?st1 \<and> snd ?st1 \<subseteq> S"
    using inv1 snd1 g sub by auto
  have all: "placedInv (placeGroup groups gis ftg g st) \<and> g \<in> snd (placeGroup groups gis ftg g st) \<and>
     snd st \<subseteq> snd (placeGroup groups gis ftg g st) \<and> snd (placeGroup groups gis ftg g st) \<subseteq> S"
  proof (cases "g \<in> snd st")
    case True
    then show ?thesis using inv sub by (simp add: placeGroup_def)
  next
    case False
    show ?thesis
    proof (cases "groupAt groups g")
      case None
      then show ?thesis using False simple by (simp add: placeGroup_def)
    next
      case (Some grp)
      show ?thesis
      proof (cases "filter (isMultiAppearance ftg) (files grp) = []")
        case True
        then show ?thesis using False Some simple by (simp add: placeGroup_def)
      next
        case ne: False
        let ?rs = "sortBy (\<lambda>a b. indexOf gis a - indexOf gis b)
                     (collectRelated ftg g (snd ?st1) (filter (isMultiAppearance ftg) (files grp)))"
        have eq: "placeGroup groups gis ftg g st = fold addGroup ?rs ?st1"
          using False Some ne by (simp add: placeGroup_def Let_def)
        show ?thesis unfolding eq using full[of ?rs] rel by blast
      qed
    qed
  qed
  show "placedInv (placeGroup groups gis ftg g st)"
    and "g \<in> snd (placeGroup groups gis ftg g st)"
    and "snd st \<subseteq> snd (placeGroup groups gis ftg g st)"
    and "snd (placeGroup groups gis ftg g st) \<subseteq> S"
    using all by auto
qed

lemma fold_placeGroup_props:
  assumes range: "\<forall>f l. map_of ftg f = Some l \<longrightarrow> set l \<subseteq> S"
  shows "placedInv st \<Longrightarrow> snd st \<subseteq> S \<Longrightarrow> set xs \<subseteq> S \<Longrightarrow>
     placedInv (fold (placeGroup groups gis ftg) xs st) \<and>
     snd st \<union> set xs \<subseteq> snd (fold (placeGroup groups gis ftg) xs st) \<and>
     snd (fold (placeGroup groups gis ftg) xs st) \<subseteq> S"
proof (induction xs arbitrary: st)
  case Nil
  then show ?case by simp
next
  case (Cons g xs)
  have g: "g \<in> S" and xs: "set xs \<subseteq> S" using Cons.prems(3) by auto
  note p = placeGroup_props[OF Cons.prems(1) range g Cons.prems(2), of groups gis]
  from Cons.IH[OF p(1) p(4) xs] p(2) p(3) show ?case by auto
qed

lemma safety_loop_noop:
  assumes "set xs \<subseteq> placed"
  shows "fold (\<lambda>groupIndex reordered. if groupIndex \<notin> placed then reordered @ [groupIndex] else reordered) xs acc = acc"
  using assms by (induction xs arbitrary: acc) auto

lemma reorder_cases:
  "reorderGroupsByFileAppearances groups gis = gis \<or>
   (distinct (reorderGroupsByFileAppearances groups gis) \<and>
    set (reorderGroupsByFileAppearances groups gis) = set gis)"
proof -
  let ?ftg = "buildFileToGroups groups gis"
  let ?multi = "filter (isMultiAppearance ?ftg) (map fst ?ftg)"
  let ?st = "fold (placeGroup groups gis ?ftg) gis ([], {})"
  let ?safety = "fold (\<lambda>groupIndex reordered.
                         if groupIndex \<notin> snd ?st then reordered @ [groupIndex] else reordered)
                      gis (fst ?st)"
  have unfold: "reorderGroupsByFileAppearances groups gis =
      (if gis = [] then gis else if ?multi = [] then gis else ?safety)"
    by (simp add: reorderGroupsByFileAppearances_def Let_def del: filter_map)
  show ?thesis
  proof (cases "gis = [] \<or> ?multi = []")
    case True
    then have "reorderGroupsByFileAppearances groups gis = gis"
      unfolding unfold by (auto simp del: filter_map)
    then show ?thesis by simp
  next
    case False
    have range: "\<forall>f l. map_of ?ftg f = Some l \<longrightarrow> set l \<subseteq> set gis"
      using buildFileToGroups_range by blast
    have props: "placedInv ?st \<and> snd ([], {}) \<union> set gis \<subseteq> snd ?st \<and> snd ?st \<subseteq> set gis"
      using fold_placeGroup_props[OF range, where st = "([], {})" and xs = gis and groups = groups and gis = gis]
      by (simp add: placedInv_def)
    then have placed: "snd ?st = set gis" by auto
    have "?safety = fst ?st"
      by (rule safety_loop_noop) (simp add: placed)
    then have eq: "reorderGroupsByFileAppearances groups gis = fst ?st"
      unfolding unfold using False by (auto simp del: filter_map)
    show ?thesis unfolding eq using props placed by (simp add: placedInv_def)
  qed
qed

lemma set_reorder: "set (reorderGroupsByFileAppearances groups gis) = set gis"
  using reorder_cases[of groups gis] by auto

lemma mset_reorder:
  assumes "distinct gis"
  shows "mset (reorderGroupsByFileAppearances groups gis) = mset gis"
  using reorder_cases[of groups gis] assms
  by (auto simp: set_eq_iff_mset_eq_distinct)

text \<open>
  Claim C10. For every list of group indices without repetition, which is what the page
  computation produces, the reordering returns a permutation of its input: every index of
  the input appears exactly once in the result and no other index appears. So the
  rendered page shows every group of the computed range exactly once, in a changed order
  at most. (For any input at all, the result has exactly the indices of the input.)
\<close>

theorem reorder_permutation:
  "set (reorderGroupsByFileAppearances groups groupIndices) = set groupIndices \<and>
   (distinct groupIndices \<longrightarrow>
      mset (reorderGroupsByFileAppearances groups groupIndices) = mset groupIndices) \<and>
   mset (getReorderedGroupsForPage groups rangeStart rangeEnd) =
     mset (getGroupsForCurrentPage groups rangeStart rangeEnd)"
proof -
  have "distinct (getGroupsForCurrentPage groups rangeStart rangeEnd)"
    by (simp add: getGroupsForCurrentPage_def distinct_calculateGroupsInRange)
  then have "mset (getReorderedGroupsForPage groups rangeStart rangeEnd) =
     mset (getGroupsForCurrentPage groups rangeStart rangeEnd)"
    unfolding getReorderedGroupsForPage_def by (rule mset_reorder)
  then show ?thesis using set_reorder mset_reorder by blast
qed

theorem reorder_permutation_witness:
  "reorderGroupsByFileAppearances scenarioThree [0, 1, 2] = [0, 2, 1] \<and>
   mset (reorderGroupsByFileAppearances scenarioThree [0, 1, 2]) = mset [0, 1, 2]"
proof -
  have d: "distinct [0, 1, 2 :: nat]" by simp
  have "mset (reorderGroupsByFileAppearances scenarioThree [0, 1, 2]) = mset [0, 1, 2]"
    using reorder_permutation[of scenarioThree "[0, 1, 2]"] d by blast
  moreover have "reorderGroupsByFileAppearances scenarioThree [0, 1, 2] = [0, 2, 1]"
    unfolding scenarioThree_def by code_simp
  ultimately show ?thesis by simp
qed

text \<open>
  A list in which an index is repeated is not a list the page computation produces. On
  such a list the placing loop places the index once.
\<close>

lemma reorder_repeated_index:
  "reorderGroupsByFileAppearances scenarioGroups [0, 0, 1] = [0, 1] \<and>
   mset (reorderGroupsByFileAppearances scenarioGroups [0, 0, 1]) \<noteq> mset [0, 0, 1]"
proof -
  have "reorderGroupsByFileAppearances scenarioGroups [0, 0, 1] = [0, 1]"
    unfolding scenarioGroups_def by code_simp
  then show ?thesis by simp
qed

section \<open>The final state at submission\<close>

lemma initFinalState_fold_lookup:
  "map_of (fold initFinalState fs acc) f =
     (case map_of acc f of Some b \<Rightarrow> Some b | None \<Rightarrow> if f \<in> set fs then Some False else None)"
proof (induction fs arbitrary: acc)
  case Nil
  then show ?case by (simp split: option.splits)
next
  case (Cons a fs)
  have step: "map_of (initFinalState a acc) f =
      (case map_of acc f of Some b \<Rightarrow> Some b | None \<Rightarrow> if f = a then Some False else None)" for f acc
    by (auto simp: initFinalState_def update_conv' split: option.splits)
  show ?case by (simp add: Cons.IH step split: option.splits)
qed

lemma firstPass_lookup:
  "map_of (fold (\<lambda>groupIndex. fold initFinalState (files (groups ! groupIndex))) page acc) f =
     (case map_of acc f of Some b \<Rightarrow> Some b
      | None \<Rightarrow> if \<exists>g\<in>set page. f \<in> set (files (groups ! g)) then Some False else None)"
proof (induction page arbitrary: acc)
  case Nil
  then show ?case by (simp split: option.splits)
next
  case (Cons g page)
  show ?case by (simp add: Cons.IH initFinalState_fold_lookup split: option.splits)
qed

lemma markFinalState_fold_lookup:
  "map_of (fold (markFinalState sel) fs acc) f =
     (if f \<in> set fs \<and> map_of sel f = Some True then Some True else map_of acc f)"
proof (induction fs arbitrary: acc)
  case Nil
  then show ?case by simp
next
  case (Cons a fs)
  have step: "map_of (markFinalState sel a acc) f =
      (if f = a \<and> map_of sel f = Some True then Some True else map_of acc f)" for f acc
    by (auto simp: markFinalState_def Let_def update_conv' split: option.splits)
  show ?case by (auto simp: Cons.IH step)
qed

lemma secondPass_lookup:
  "map_of (fold (\<lambda>groupIndex.
                   fold (markFinalState (case autoSel groupIndex of None \<Rightarrow> [] | Some sel \<Rightarrow> sel))
                        (files (groups ! groupIndex))) page acc) f =
     (if \<exists>g\<in>set page. f \<in> set (files (groups ! g)) \<and> selectionOf autoSel g f = Some True
      then Some True else map_of acc f)"
proof (induction page arbitrary: acc)
  case Nil
  then show ?case by simp
next
  case (Cons g page)
  have sel: "map_of (case autoSel g of None \<Rightarrow> [] | Some sel \<Rightarrow> sel) f = selectionOf autoSel g f"
    by (simp add: selectionOf_def split: option.splits)
  show ?case by (auto simp: Cons.IH markFinalState_fold_lookup sel)
qed

lemma fileFinalStates_lookup:
  assumes "\<forall>g\<in>set page. g < length groups"
  shows "\<exists>fs. fileFinalStates groups autoSel page = Some fs \<and>
           (\<forall>f. map_of fs f =
              (if \<exists>g\<in>set page. f \<in> set (files (groups ! g)) \<and> selectionOf autoSel g f = Some True
               then Some True
               else if \<exists>g\<in>set page. f \<in> set (files (groups ! g)) then Some False else None))"
  using assms
  by (simp add: fileFinalStates_def Let_def list_all_iff secondPass_lookup firstPass_lookup)

text \<open>
  Claim C2. When a page is submitted, the final state of every record R that appears on
  the page is true if and only if R is checked in at least one group of the page that
  contains R, and false otherwise. Every group is submitted with exactly those of its
  files whose final state is true, and the status written back for a file is saved when
  its final state is true and removed when it is false.
\<close>

theorem final_state_or_rule:
  "\<exists>fs. fileFinalStates groups autoSel (getGroupsForCurrentPage groups rangeStart rangeEnd) = Some fs \<and>
     (\<forall>g\<in>set (getGroupsForCurrentPage groups rangeStart rangeEnd). \<forall>R\<in>set (files (groups ! g)).
        (map_of fs R = Some True \<longleftrightarrow>
           (\<exists>g'\<in>set (getGroupsForCurrentPage groups rangeStart rangeEnd).
              R \<in> set (files (groups ! g')) \<and> selectionOf autoSel g' R = Some True)) \<and>
        (map_of fs R = Some False \<longleftrightarrow>
           \<not> (\<exists>g'\<in>set (getGroupsForCurrentPage groups rangeStart rangeEnd).
              R \<in> set (files (groups ! g')) \<and> selectionOf autoSel g' R = Some True)) \<and>
        status (statusAfterSubmit fs R) = (if map_of fs R = Some True then Saved else Removed)) \<and>
     (\<forall>g\<in>set (getGroupsForCurrentPage groups rangeStart rangeEnd).
        checkedFilesOf groups fs g =
          filter (\<lambda>R. \<exists>g'\<in>set (getGroupsForCurrentPage groups rangeStart rangeEnd).
                        R \<in> set (files (groups ! g')) \<and> selectionOf autoSel g' R = Some True)
                 (files (groups ! g)))"
proof -
  let ?page = "getGroupsForCurrentPage groups rangeStart rangeEnd"
  have valid: "\<forall>g\<in>set ?page. g < length groups"
    by (simp add: getGroupsForCurrentPage_def set_calculateGroupsInRange)
  from fileFinalStates_lookup[OF valid, of autoSel] obtain fs where
    fs: "fileFinalStates groups autoSel ?page = Some fs"
    and look: "\<And>f. map_of fs f =
              (if \<exists>g\<in>set ?page. f \<in> set (files (groups ! g)) \<and> selectionOf autoSel g f = Some True
               then Some True
               else if \<exists>g\<in>set ?page. f \<in> set (files (groups ! g)) then Some False else None)"
    by blast
  have a: "\<forall>g\<in>set ?page. \<forall>R\<in>set (files (groups ! g)).
        (map_of fs R = Some True \<longleftrightarrow>
           (\<exists>g'\<in>set ?page. R \<in> set (files (groups ! g')) \<and> selectionOf autoSel g' R = Some True)) \<and>
        (map_of fs R = Some False \<longleftrightarrow>
           \<not> (\<exists>g'\<in>set ?page. R \<in> set (files (groups ! g')) \<and> selectionOf autoSel g' R = Some True)) \<and>
        status (statusAfterSubmit fs R) = (if map_of fs R = Some True then Saved else Removed)"
    by (auto simp: look statusAfterSubmit_def)
  have b: "\<forall>g\<in>set ?page.
        checkedFilesOf groups fs g =
          filter (\<lambda>R. \<exists>g'\<in>set ?page. R \<in> set (files (groups ! g')) \<and> selectionOf autoSel g' R = Some True)
                 (files (groups ! g))"
    unfolding checkedFilesOf_def by (intro ballI filter_cong refl) (auto simp: look)
  show ?thesis using fs a b by blast
qed

theorem final_state_or_rule_witness:
  "fileFinalStates scenarioGroups
       [0 \<mapsto> [(''A'', True), (''B'', False)], 1 \<mapsto> [(''B'', True), (''C'', False)]]
       (getGroupsForCurrentPage scenarioGroups (999 / 10) (998 / 10))
     = Some [(''A'', True), (''B'', True), (''C'', False)] \<and>
   checkedFilesOf scenarioGroups [(''A'', True), (''B'', True), (''C'', False)] 0 = [''A'', ''B''] \<and>
   checkedFilesOf scenarioGroups [(''A'', True), (''B'', True), (''C'', False)] 1 = [''B'']"
proof -
  let ?sel = "[0 \<mapsto> [(''A'', True), (''B'', False)], 1 \<mapsto> [(''B'', True), (''C'', False)]]"
  from final_state_or_rule[of scenarioGroups ?sel "999 / 10" "998 / 10"]
  obtain fs where "fileFinalStates scenarioGroups ?sel
       (getGroupsForCurrentPage scenarioGroups (999 / 10) (998 / 10)) = Some fs"
    by blast
  moreover have "fileFinalStates scenarioGroups ?sel
       (getGroupsForCurrentPage scenarioGroups (999 / 10) (998 / 10))
     = Some [(''A'', True), (''B'', True), (''C'', False)]"
    unfolding scenarioGroups_def by code_simp
  moreover have "checkedFilesOf scenarioGroups [(''A'', True), (''B'', True), (''C'', False)] 0 = [''A'', ''B'']"
    unfolding scenarioGroups_def by code_simp
  moreover have "checkedFilesOf scenarioGroups [(''A'', True), (''B'', True), (''C'', False)] 1 = [''B'']"
    unfolding scenarioGroups_def by code_simp
  ultimately show ?thesis by simp
qed

section \<open>Conflicts on a page\<close>

lemma addFileState_lookup:
  "map_of (addFileState ctx autoSel g a acc) f =
     (if f = a then Some (insert (isCheckedIn ctx autoSel g a) (case map_of acc a of None \<Rightarrow> {} | Some s \<Rightarrow> s))
      else map_of acc f)"
  by (simp add: addFileState_def update_conv')

lemma addFileState_distinct:
  "distinct (map fst acc) \<Longrightarrow> distinct (map fst (addFileState ctx autoSel g a acc))"
  by (simp add: addFileState_def distinct_update)

lemma fold_addFileState_distinct:
  "distinct (map fst acc) \<Longrightarrow> distinct (map fst (fold (addFileState ctx autoSel g) fs acc))"
  by (induction fs arbitrary: acc) (auto simp: addFileState_distinct)

lemma fold_addFileState_lookup:
  "map_of (fold (addFileState ctx autoSel g) fs acc) f =
     (if f \<in> set fs then Some (insert (isCheckedIn ctx autoSel g f) (case map_of acc f of None \<Rightarrow> {} | Some s \<Rightarrow> s))
      else map_of acc f)"
proof (induction fs arbitrary: acc)
  case Nil
  then show ?case by simp
next
  case (Cons a fs)
  show ?case by (auto simp: Cons.IH addFileState_lookup)
qed

lemma spec_valuesHeld_Nil [simp]: "spec_valuesHeld groups ctx autoSel [] f = {}"
  by (simp add: spec_valuesHeld_def)

lemma spec_valuesHeld_set:
  "b \<in> spec_valuesHeld groups ctx autoSel page f \<longleftrightarrow>
     (\<exists>g\<in>set page. g < length groups \<and> f \<in> set (files (groups ! g)) \<and> isCheckedIn ctx autoSel g f = b)"
  by (auto simp: spec_valuesHeld_def)

lemma spec_valuesHeld_cong:
  "set p = set q \<Longrightarrow> spec_valuesHeld groups ctx autoSel p f = spec_valuesHeld groups ctx autoSel q f"
  by (auto simp: spec_valuesHeld_set set_eq_iff)

lemma spec_valuesHeld_Cons:
  "spec_valuesHeld groups ctx autoSel (g # page) f =
     (if g < length groups \<and> f \<in> set (files (groups ! g)) then {isCheckedIn ctx autoSel g f} else {})
     \<union> spec_valuesHeld groups ctx autoSel page f"
  by (auto simp: spec_valuesHeld_def)

lemma collect_fold_lookup:
  "map_of (fold (\<lambda>groupIndex fileStates.
             case groupAt groups groupIndex of
               None \<Rightarrow> fileStates
             | Some grp \<Rightarrow> fold (addFileState ctx autoSel groupIndex) (files grp) fileStates) page acc) f =
     (if spec_valuesHeld groups ctx autoSel page f = {} then map_of acc f
      else Some (spec_valuesHeld groups ctx autoSel page f \<union> (case map_of acc f of None \<Rightarrow> {} | Some s \<Rightarrow> s)))"
proof (induction page arbitrary: acc)
  case Nil
  then show ?case by simp
next
  case (Cons g page)
  show ?case
  proof (cases "g < length groups")
    case False
    then have head: "groupAt groups g = None" by (simp add: groupAt_def)
    show ?thesis using False by (simp add: Cons.IH head spec_valuesHeld_Cons)
  next
    case True
    then have head: "groupAt groups g = Some (groups ! g)" by (simp add: groupAt_def)
    show ?thesis
      using True
      by (auto simp: Cons.IH head spec_valuesHeld_Cons fold_addFileState_lookup split: option.splits)
  qed
qed

lemma collect_fold_distinct:
  "distinct (map fst acc) \<Longrightarrow>
   distinct (map fst (fold (\<lambda>groupIndex fileStates.
             case groupAt groups groupIndex of
               None \<Rightarrow> fileStates
             | Some grp \<Rightarrow> fold (addFileState ctx autoSel groupIndex) (files grp) fileStates) page acc))"
  by (induction page arbitrary: acc) (auto simp: fold_addFileState_distinct split: option.splits)

lemma collectFileStates_lookup:
  "map_of (collectFileStates groups ctx autoSel page) f =
     (if spec_valuesHeld groups ctx autoSel page f = {} then None else Some (spec_valuesHeld groups ctx autoSel page f))"
  by (simp add: collectFileStates_def collect_fold_lookup)

lemma collectFileStates_distinct: "distinct (map fst (collectFileStates groups ctx autoSel page))"
  by (simp add: collectFileStates_def collect_fold_distinct)

lemma detectConflicts_mem:
  assumes "detectConflicts groups ctx autoSel page = Some conflicts"
  shows "f \<in> conflicts \<longleftrightarrow>
           True \<in> spec_valuesHeld groups ctx autoSel page f \<and> False \<in> spec_valuesHeld groups ctx autoSel page f"
proof -
  let ?al = "collectFileStates groups ctx autoSel page"
  have conf: "conflicts = set (map fst (filter (\<lambda>entry. True \<in> snd entry \<and> False \<in> snd entry) ?al))"
    using assms by (auto simp: detectConflicts_def split: if_splits)
  have mem: "(f, s) \<in> set ?al \<longleftrightarrow> map_of ?al f = Some s" for s
    using collectFileStates_distinct[of groups ctx autoSel page] by (rule map_of_eq_Some_iff[symmetric])
  have "f \<in> conflicts \<longleftrightarrow> (\<exists>s. (f, s) \<in> set ?al \<and> True \<in> s \<and> False \<in> s)"
    unfolding conf by force
  also have "\<dots> \<longleftrightarrow> (\<exists>s. map_of ?al f = Some s \<and> True \<in> s \<and> False \<in> s)"
    by (simp add: mem)
  also have "\<dots> \<longleftrightarrow> True \<in> spec_valuesHeld groups ctx autoSel page f \<and> False \<in> spec_valuesHeld groups ctx autoSel page f"
    by (auto simp: collectFileStates_lookup)
  finally show ?thesis .
qed

text \<open>
  Claim C8, as the code has it. After the conflict effect has run on a page with at least
  one group, a record is in the conflict set if and only if, among the values it holds
  across the groups of the page that contain it, both true and false occur; so the set
  then holds no record whose value is the same in all of its groups. The value a record
  holds in a group is its selection entry in that group, and the checked flag of the
  status context where the group has no entry for it. On a page without groups the effect
  returns before computing anything and the conflict set keeps the records it held
  before.
\<close>

theorem conflict_detection:
  "(getGroupsForCurrentPage groups rangeStart rangeEnd \<noteq> [] \<longrightarrow>
      (\<forall>f. f \<in> conflictEffect groups ctx autoSel rangeStart rangeEnd conflictingFiles \<longleftrightarrow>
           True \<in> spec_valuesHeld groups ctx autoSel (getGroupsForCurrentPage groups rangeStart rangeEnd) f \<and>
           False \<in> spec_valuesHeld groups ctx autoSel (getGroupsForCurrentPage groups rangeStart rangeEnd) f)) \<and>
   (getGroupsForCurrentPage groups rangeStart rangeEnd = [] \<longrightarrow>
      conflictEffect groups ctx autoSel rangeStart rangeEnd conflictingFiles = conflictingFiles)"
proof -
  let ?page = "getGroupsForCurrentPage groups rangeStart rangeEnd"
  let ?shown = "getReorderedGroupsForPage groups rangeStart rangeEnd"
  have same: "set ?shown = set ?page"
    by (simp add: getReorderedGroupsForPage_def set_reorder)
  then have held: "\<And>f. spec_valuesHeld groups ctx autoSel ?shown f = spec_valuesHeld groups ctx autoSel ?page f"
    by (rule spec_valuesHeld_cong)
  have a: "\<forall>f. f \<in> conflictEffect groups ctx autoSel rangeStart rangeEnd conflictingFiles \<longleftrightarrow>
           True \<in> spec_valuesHeld groups ctx autoSel ?page f \<and>
           False \<in> spec_valuesHeld groups ctx autoSel ?page f"
    if ne: "?page \<noteq> []"
  proof -
    have "?shown \<noteq> []" using ne same by (metis set_empty)
    then obtain C where C: "detectConflicts groups ctx autoSel ?shown = Some C"
      by (simp add: detectConflicts_def)
    then have "conflictEffect groups ctx autoSel rangeStart rangeEnd conflictingFiles = C"
      by (simp add: conflictEffect_def)
    then show ?thesis using detectConflicts_mem[OF C] held by simp
  qed
  have b: "conflictEffect groups ctx autoSel rangeStart rangeEnd conflictingFiles = conflictingFiles"
    if e: "?page = []"
  proof -
    have "?shown = []" using e same by (metis set_empty)
    then show ?thesis by (simp add: conflictEffect_def detectConflicts_def)
  qed
  show ?thesis using a b by blast
qed

theorem conflict_detection_witness:
  "conflictEffect scenarioGroups Map.empty
       [0 \<mapsto> [(''A'', True), (''B'', False)], 1 \<mapsto> [(''B'', True), (''C'', False)]]
       (999 / 10) (998 / 10) {''A''} = {''B''} \<and>
   True \<in> spec_valuesHeld scenarioGroups Map.empty
       [0 \<mapsto> [(''A'', True), (''B'', False)], 1 \<mapsto> [(''B'', True), (''C'', False)]]
       (getGroupsForCurrentPage scenarioGroups (999 / 10) (998 / 10)) ''B'' \<and>
   False \<in> spec_valuesHeld scenarioGroups Map.empty
       [0 \<mapsto> [(''A'', True), (''B'', False)], 1 \<mapsto> [(''B'', True), (''C'', False)]]
       (getGroupsForCurrentPage scenarioGroups (999 / 10) (998 / 10)) ''B'' \<and>
   False \<notin> spec_valuesHeld scenarioGroups Map.empty
       [0 \<mapsto> [(''A'', True), (''B'', False)], 1 \<mapsto> [(''B'', True), (''C'', False)]]
       (getGroupsForCurrentPage scenarioGroups (999 / 10) (998 / 10)) ''A'' \<and>
   conflictEffect scenarioGroups Map.empty
       [0 \<mapsto> [(''A'', True), (''B'', False)], 1 \<mapsto> [(''B'', True), (''C'', False)]]
       50 50 {''A''} = {''A''}"
proof -
  let ?sel = "[0 \<mapsto> [(''A'', True), (''B'', False)], 1 \<mapsto> [(''B'', True), (''C'', False)]]"
  let ?page = "getGroupsForCurrentPage scenarioGroups (999 / 10) (998 / 10)"
  have "detectConflicts scenarioGroups Map.empty ?sel
       (getReorderedGroupsForPage scenarioGroups (999 / 10) (998 / 10)) = Some {''B''}"
    unfolding scenarioGroups_def by code_simp
  then have d: "conflictEffect scenarioGroups Map.empty ?sel (999 / 10) (998 / 10) {''A''} = {''B''}"
    by (simp add: conflictEffect_def)
  have page: "?page = [0, 1]"
    unfolding scenarioGroups_def by code_simp
  then have ne: "?page \<noteq> []" by simp
  have tA: "True \<in> spec_valuesHeld scenarioGroups Map.empty ?sel ?page ''A''"
    unfolding page by (simp add: spec_valuesHeld_def scenarioGroups_def isCheckedIn_def)
  have iff: "f \<in> conflictEffect scenarioGroups Map.empty ?sel (999 / 10) (998 / 10) {''A''} \<longleftrightarrow>
           True \<in> spec_valuesHeld scenarioGroups Map.empty ?sel ?page f \<and>
           False \<in> spec_valuesHeld scenarioGroups Map.empty ?sel ?page f" for f
    using conflict_detection[of scenarioGroups "999 / 10" "998 / 10" Map.empty ?sel "{''A''}"] ne
    by blast
  have inB: "''B'' \<in> conflictEffect scenarioGroups Map.empty ?sel (999 / 10) (998 / 10) {''A''}"
    unfolding d by simp
  have outA: "''A'' \<notin> conflictEffect scenarioGroups Map.empty ?sel (999 / 10) (998 / 10) {''A''}"
    unfolding d by simp
  from inB have "True \<in> spec_valuesHeld scenarioGroups Map.empty ?sel ?page ''B'' \<and>
        False \<in> spec_valuesHeld scenarioGroups Map.empty ?sel ?page ''B''"
    unfolding iff .
  moreover from outA tA have "False \<notin> spec_valuesHeld scenarioGroups Map.empty ?sel ?page ''A''"
    unfolding iff by blast
  moreover have "conflictEffect scenarioGroups Map.empty ?sel 50 50 {''A''} = {''A''}"
  proof -
    have "getGroupsForCurrentPage scenarioGroups 50 50 = []"
      unfolding scenarioGroups_def by code_simp
    then show ?thesis
      using conflict_detection[of scenarioGroups 50 50 Map.empty ?sel "{''A''}"] by blast
  qed
  ultimately show ?thesis using d by blast
qed

theorem conflict_stale_counterexample:
  "getGroupsForCurrentPage scenarioGroups 50 50 = [] \<and>
   conflictEffect scenarioGroups Map.empty
       [0 \<mapsto> [(''A'', True), (''B'', False)], 1 \<mapsto> [(''B'', False), (''C'', False)]]
       50 50 {''B''} = {''B''} \<and>
   spec_valuesHeld scenarioGroups Map.empty
       [0 \<mapsto> [(''A'', True), (''B'', False)], 1 \<mapsto> [(''B'', False), (''C'', False)]]
       (getGroupsForCurrentPage scenarioGroups 50 50) ''B'' = {}"
proof -
  have page: "getGroupsForCurrentPage scenarioGroups 50 50 = []"
    unfolding scenarioGroups_def by code_simp
  have shown: "getReorderedGroupsForPage scenarioGroups 50 50 = []"
    unfolding scenarioGroups_def by code_simp
  show ?thesis
    by (simp add: page conflictEffect_def detectConflicts_def shown)
qed

section \<open>Session storage: one slot, guarded by subject\<close>

text \<open>
  Claim C7, as the code has it. The store holds one session document in total, not one
  per subject. Saving a session replaces whatever was stored; loading a subject returns
  the stored document only when it belongs to that subject. So after a session for
  subject B has been saved, loading B returns that session (stamped with the time of the
  save), and loading any other subject A returns nothing: never B's session, and no
  longer the session that was saved for A before.
\<close>

theorem storage_single_slot:
  "loadSession (subject sB) (saveSession now sB store) = Some (sB\<lparr>lastUpdated := now\<rparr>) \<and>
   (A \<noteq> subject sB \<longrightarrow> loadSession A (saveSession now sB store) = None) \<and>
   (loadSession A store = Some s \<longrightarrow> subject s = A)"
  by (auto simp: loadSession_def saveSession_def split: option.splits if_splits)

theorem storage_single_slot_witness:
  "loadSession ''physics'' (saveSession 2 (freshSession ''physics'' 0) (saveSession 1 (freshSession ''biology'' 0) None))
     = Some (freshSession ''physics'' 2) \<and>
   loadSession ''biology'' (saveSession 2 (freshSession ''physics'' 0) (saveSession 1 (freshSession ''biology'' 0) None))
     = None \<and>
   loadSession ''biology'' (saveSession 1 (freshSession ''biology'' 0) None) = Some (freshSession ''biology'' 1)"
  using storage_single_slot [of "freshSession ''physics'' 0" 2 "saveSession 1 (freshSession ''biology'' 0) None" "''biology''"]
  by (simp add: freshSession_def loadSession_def saveSession_def)

text \<open>
  The claim as the specification words it (after saving for B, loading A still returns
  A's session) fails: a session saved for biology is gone once one for physics is saved.
\<close>

theorem storage_isolation_counterexample:
  "loadSession ''biology'' (saveSession 1 (freshSession ''biology'' 0) None) = Some (freshSession ''biology'' 1) \<and>
   loadSession ''biology'' (saveSession 2 (freshSession ''physics'' 0) (saveSession 1 (freshSession ''biology'' 0) None))
     \<noteq> Some (freshSession ''biology'' 1)"
  by (simp add: freshSession_def loadSession_def saveSession_def)

end
